theory Spec2Isabelle
  imports Complex_Main "HOL-Library.Multiset"
begin

section \<open>Grid model (script.js, class MazeGrid)\<close>

text \<open>
  A cell of \<open>this.maze\<close> is the object \<open>{visited, walls: {top, right, bottom, left}, inMaze}\<close>.
  The field \<open>top\<close> is written \<open>top'\<close> because \<open>top\<close> is a constant of HOL.
  A wall flag is \<open>True\<close> while the wall is present.
\<close>

datatype direction = Top | Right | Bottom | Left

record walls =
  top' :: bool
  right :: bool
  bottom :: bool
  left :: bool

record cell =
  visited :: bool
  walls :: walls
  inMaze :: bool

text \<open>
  The only exception the modelled code can raise is the TypeError of JavaScript for a
  property read or write on \<open>undefined\<close> (an array read out of range gives \<open>undefined\<close>).
  \<open>NotANumber\<close> is no exception of the source: the model stops with it where the source
  would go on computing with \<open>NaN\<close> (\<open>undefined + 1\<close>), which the integers here cannot hold.
\<close>

datatype error = TypeError | NotANumber

text \<open>
  A coordinate object \<open>{row, col}\<close> and a solver key (the string \<open>"row,col"\<close>, built from the
  two integers and parsed back with \<open>split(",").map(Number)\<close>) are both the pair of integers.
  A frontier entry is the array \<open>[row, col, direction]\<close>.
\<close>

type_synonym pos = "int \<times> int"
type_synonym wall = "int \<times> int \<times> direction"

text \<open>
  The fields of MazeGrid the algorithms read or write. The DOM side (\<open>container\<close>,
  \<open>cells\<close>, CSS classes) is the renderer and is left out, except that \<open>getCellElement\<close>
  on a position that is no cell raises. \<open>warnings\<close> collects the \<open>console.warn\<close> messages.
  \<open>isSolving\<close> is the flag the cycle sets around a solve; \<open>solving\<close> is the separate flag
  \<open>solveMaze\<close> keeps for itself.
\<close>

record mazegrid =
  rows :: int
  cols :: int
  maze :: "cell list list"
  start :: "pos option"
  end' :: "pos option"
  minDistance :: int
  isGenerating :: bool
  isSolving :: bool
  solving :: bool
  warnings :: "string list"

definition allWalls :: walls where
  "allWalls = \<lparr>top' = True, right = True, bottom = True, left = True\<rparr>"

definition blankCell :: cell where
  "blankCell = \<lparr>visited = False, walls = allWalls, inMaze = False\<rparr>"

fun wallAt :: "walls \<Rightarrow> direction \<Rightarrow> bool" where
  "wallAt w Top = top' w"
| "wallAt w Right = right w"
| "wallAt w Bottom = bottom w"
| "wallAt w Left = left w"

fun clearWall :: "direction \<Rightarrow> walls \<Rightarrow> walls" where
  "clearWall Top w = w\<lparr>top' := False\<rparr>"
| "clearWall Right w = w\<lparr>right := False\<rparr>"
| "clearWall Bottom w = w\<lparr>bottom := False\<rparr>"
| "clearWall Left w = w\<lparr>left := False\<rparr>"

fun opposite :: "direction \<Rightarrow> direction" where
  "opposite Top = Bottom"
| "opposite Right = Left"
| "opposite Bottom = Top"
| "opposite Left = Right"

fun getCellInDirection :: "int \<Rightarrow> int \<Rightarrow> direction \<Rightarrow> pos" where
  "getCellInDirection r c Top = (r - 1, c)"
| "getCellInDirection r c Right = (r, c + 1)"
| "getCellInDirection r c Bottom = (r + 1, c)"
| "getCellInDirection r c Left = (r, c - 1)"

definition isValidCell :: "mazegrid \<Rightarrow> int \<Rightarrow> int \<Rightarrow> bool" where
  "isValidCell st r c \<longleftrightarrow> r \<ge> 0 \<and> r < rows st \<and> c \<ge> 0 \<and> c < cols st"

definition getManhattanDistance :: "int \<Rightarrow> int \<Rightarrow> int \<Rightarrow> int \<Rightarrow> int" where
  "getManhattanDistance row1 col1 row2 col2 = \<bar>row1 - row2\<bar> + \<bar>col1 - col2\<bar>"

text \<open>
  \<open>this.maze[r][c]\<close>: \<open>None\<close> stands for \<open>undefined\<close> (or for the TypeError of indexing
  the \<open>undefined\<close> row); every use of the cell then raises TypeError.
\<close>

definition cellAt :: "cell list list \<Rightarrow> int \<Rightarrow> int \<Rightarrow> cell option" where
  "cellAt m r c =
     (if 0 \<le> r \<and> nat r < length m \<and> 0 \<le> c \<and> nat c < length (m ! nat r)
      then Some (m ! nat r ! nat c) else None)"

definition setCell :: "cell list list \<Rightarrow> int \<Rightarrow> int \<Rightarrow> cell \<Rightarrow> cell list list" where
  "setCell m r c v = m[nat r := (m ! nat r)[nat c := v]]"

text \<open>A field assignment \<open>this.maze[r][c].f = v\<close>: TypeError when the cell is missing.\<close>

definition updCell :: "cell list list \<Rightarrow> int \<Rightarrow> int \<Rightarrow> (cell \<Rightarrow> cell) \<Rightarrow> error + cell list list" where
  "updCell m r c f =
     (case cellAt m r c of None \<Rightarrow> Inl TypeError | Some cl \<Rightarrow> Inr (setCell m r c (f cl)))"

text \<open>\<open>getCellElement(r, c).classList\<close>: the cached DOM array has the shape of the grid.\<close>

definition getCellElement :: "mazegrid \<Rightarrow> int \<Rightarrow> int \<Rightarrow> error + unit" where
  "getCellElement st r c = (if isValidCell st r c then Inr () else Inl TypeError)"

text \<open>
  The representation invariant \<open>initializeGrid\<close> establishes: \<open>this.maze\<close> is an array of
  \<open>rows\<close> arrays of \<open>cols\<close> cells.
\<close>

definition wf_grid :: "mazegrid \<Rightarrow> bool" where
  "wf_grid st \<longleftrightarrow>
     length (maze st) = nat (rows st) \<and>
     (\<forall>rw \<in> set (maze st). length rw = nat (cols st))"

subsection \<open>removeWall and addWalls\<close>

definition removeWall :: "mazegrid \<Rightarrow> int \<Rightarrow> int \<Rightarrow> direction \<Rightarrow> error + mazegrid" where
  "removeWall st r c d =
     (if \<not> isValidCell st r c then Inr st
      else case updCell (maze st) r c (\<lambda>cl. cl\<lparr>walls := clearWall d (walls cl)\<rparr>) of
        Inl e \<Rightarrow> Inl e
      | Inr m1 \<Rightarrow>
          (case getCellInDirection r c d of (nr, nc) \<Rightarrow>
             if isValidCell st nr nc
             then (case updCell m1 nr nc (\<lambda>cl. cl\<lparr>walls := clearWall (opposite d) (walls cl)\<rparr>) of
                     Inl e \<Rightarrow> Inl e
                   | Inr m2 \<Rightarrow> Inr (st\<lparr>maze := m2\<rparr>))
             else Inr (st\<lparr>maze := m1\<rparr>)))"

fun addWallsDirs :: "mazegrid \<Rightarrow> int \<Rightarrow> int \<Rightarrow> direction list \<Rightarrow> wall list \<Rightarrow> error + wall list" where
  "addWallsDirs st r c [] ws = Inr ws"
| "addWallsDirs st r c (d # ds) ws =
     (case getCellInDirection r c d of (nr, nc) \<Rightarrow>
        if isValidCell st nr nc
        then (case cellAt (maze st) nr nc of
                None \<Rightarrow> Inl TypeError
              | Some cl \<Rightarrow> addWallsDirs st r c ds (if \<not> inMaze cl then ws @ [(r, c, d)] else ws))
        else addWallsDirs st r c ds ws)"

definition addWalls :: "mazegrid \<Rightarrow> int \<Rightarrow> int \<Rightarrow> wall list \<Rightarrow> error + wall list" where
  "addWalls st r c ws = addWallsDirs st r c [Top, Right, Bottom, Left] ws"

subsection \<open>Math.random\<close>

text \<open>
  \<open>Math.random()\<close> is an oracle: the \<open>k\<close>-th call returns \<open>rnd k\<close>, a number in \<open>[0, 1)\<close>
  (\<open>unit_rnd\<close>). \<open>Math.floor(Math.random() * n)\<close> is \<open>randomInt\<close>.
\<close>

definition unit_rnd :: "(nat \<Rightarrow> rat) \<Rightarrow> bool" where
  "unit_rnd rnd \<longleftrightarrow> (\<forall>k. 0 \<le> rnd k \<and> rnd k < 1)"

definition randomInt :: "rat \<Rightarrow> int \<Rightarrow> int" where
  "randomInt x n = \<lfloor>x * of_int n\<rfloor>"

subsection \<open>The carving loop of generateMaze\<close>

text \<open>
  \<open>processChunk\<close> runs the loop below in batches of 20 and yields between batches; a batch
  boundary changes no state, so the batches are one loop here. \<open>walls.splice(i, 1)[0]\<close>
  with \<open>i\<close> out of range gives \<open>undefined\<close>, whose destructuring raises (that needs a
  \<open>Math.random()\<close> outside \<open>[0, 1)\<close>). \<open>isGenerating\<close> is only written by the cycle and by
  resize and teardown handlers, which do not run inside this model. The loop returns the
  number of \<open>Math.random()\<close> calls made so far and the grid.
\<close>

definition notInMaze :: "cell list list \<Rightarrow> nat" where
  "notInMaze m = sum_list (map (\<lambda>rw. length (filter (\<lambda>cl. \<not> inMaze cl) rw)) m)"

definition markInMaze :: "mazegrid \<Rightarrow> int \<Rightarrow> int \<Rightarrow> error + mazegrid" where
  "markInMaze st r c =
     (case updCell (maze st) r c (\<lambda>cl. cl\<lparr>inMaze := True\<rparr>) of
        Inl e \<Rightarrow> Inl e
      | Inr m \<Rightarrow> Inr (st\<lparr>maze := m\<rparr>))"

text \<open>
  One accepted frontier entry: \<open>removeWall\<close>, \<open>inMaze = true\<close> on the target, \<open>addWalls\<close>
  on the target (lines 291 to 293).
\<close>

definition carveCell :: "mazegrid \<Rightarrow> wall \<Rightarrow> pos \<Rightarrow> wall list \<Rightarrow> error + (mazegrid \<times> wall list)" where
  "carveCell st w nxt ws =
     (case w of (wr, wc, d) \<Rightarrow> (case nxt of (nr, nc) \<Rightarrow>
        (case removeWall st wr wc d of
           Inl e \<Rightarrow> Inl e
         | Inr st1 \<Rightarrow>
             (case markInMaze st1 nr nc of
                Inl e \<Rightarrow> Inl e
              | Inr st2 \<Rightarrow>
                  (case addWalls st2 nr nc ws of
                     Inl e \<Rightarrow> Inl e
                   | Inr ws2 \<Rightarrow> Inr (st2, ws2))))))"

text \<open>The test of lines 287 to 290 on the cell across a frontier wall.\<close>

definition targetFree :: "mazegrid \<Rightarrow> pos \<Rightarrow> error + bool" where
  "targetFree st nxt =
     (case nxt of (nr, nc) \<Rightarrow>
        if isValidCell st nr nc
        then (case cellAt (maze st) nr nc of
                None \<Rightarrow> Inl TypeError
              | Some cl \<Rightarrow> Inr (\<not> inMaze cl))
        else Inr False)"

subsection \<open>Termination of the carving loop\<close>

text \<open>
  Each iteration removes one frontier entry; an accepted entry adds at most four and turns
  one cell that was not in the maze into one that is.
\<close>

lemma cellAt_setCell:
  "cellAt m r c = Some cl \<Longrightarrow>
   cellAt (setCell m r c v) r' c' = (if r' = r \<and> c' = c then Some v else cellAt m r' c')"
proof -
  assume "cellAt m r c = Some cl"
  then have r: "0 \<le> r" "nat r < length m" and c: "0 \<le> c" "nat c < length (m ! nat r)"
    by (auto simp: cellAt_def split: if_splits)
  show ?thesis
  proof (cases "r' = r")
    case True
    with r c show ?thesis
      by (cases "c' = c") (auto simp: cellAt_def setCell_def nth_list_update)
  next
    case False
    with r have "0 \<le> r' \<Longrightarrow> nat r' \<noteq> nat r" by simp
    with False show ?thesis
      by (auto simp: cellAt_def setCell_def nth_list_update)
  qed
qed


lemma notInMaze_setCell:
  assumes "cellAt m r c = Some cl"
  shows "notInMaze (setCell m r c v) + (if inMaze cl then 0 else 1)
         = notInMaze m + (if inMaze v then 0 else 1)"
proof -
  let ?f = "\<lambda>rw. length (filter (\<lambda>cl. \<not> inMaze cl) rw)"
  from assms have r: "0 \<le> r" "nat r < length m" and c: "0 \<le> c" "nat c < length (m ! nat r)"
    and cl: "cl = m ! nat r ! nat c"
    by (auto simp: cellAt_def split: if_splits)
  have row: "?f ((m ! nat r)[nat c := v]) + (if inMaze cl then 0 else 1)
      = ?f (m ! nat r) + (if inMaze v then 0 else 1)"
  proof -
    define rw where "rw = m ! nat r"
    define j where "j = nat c"
    have "j < length rw" using c by (simp add: rw_def j_def)
    then have "?f (rw[j := v]) + (if inMaze (rw ! j) then 0 else 1)
                = ?f rw + (if inMaze v then 0 else 1)"
    proof (induction rw arbitrary: j)
      case Nil then show ?case by simp
    next
      case (Cons a rw)
      show ?case
      proof (cases j)
        case 0 then show ?thesis by simp
      next
        case (Suc n)
        with Cons.prems have "n < length rw" by simp
        from Cons.IH[OF this] Suc show ?thesis by (auto split: if_splits)
      qed
    qed
    then show ?thesis by (simp add: rw_def j_def cl)
  qed
  have "sum_list (map ?f (m[nat r := (m ! nat r)[nat c := v]])) + ?f (m ! nat r)
        = sum_list (map ?f m) + ?f ((m ! nat r)[nat c := v])"
    using r(2)
  proof (induction m arbitrary: r)
    case Nil then show ?case by simp
  next
    case (Cons a m)
    show ?case
    proof (cases "nat r")
      case 0 then show ?thesis by simp
    next
      case (Suc n)
      with Cons.prems have "n < length m" by simp
      from Cons.IH[of "int n"] this Suc show ?thesis by simp
    qed
  qed
  with row show ?thesis by (simp add: notInMaze_def setCell_def)
qed

lemma updCell_Inr:
  "updCell m r c f = Inr m' \<longleftrightarrow> (\<exists>cl. cellAt m r c = Some cl \<and> m' = setCell m r c (f cl))"
  by (auto simp: updCell_def split: option.splits)

lemma cellAt_updCell:
  "updCell m r c f = Inr m' \<Longrightarrow>
   cellAt m' r' c' = (if r' = r \<and> c' = c then map_option f (cellAt m r c) else cellAt m r' c')"
  by (auto simp: updCell_Inr cellAt_setCell)

lemma notInMaze_updCell_same:
  "updCell m r c f = Inr m' \<Longrightarrow> (\<And>cl. inMaze (f cl) = inMaze cl) \<Longrightarrow> notInMaze m' = notInMaze m"
proof -
  assume a: "updCell m r c f = Inr m'" and f: "\<And>cl. inMaze (f cl) = inMaze cl"
  from a obtain cl where cl: "cellAt m r c = Some cl" "m' = setCell m r c (f cl)"
    by (auto simp: updCell_Inr)
  from notInMaze_setCell[OF cl(1), of "f cl"] f[of cl] cl(2) show ?thesis by simp
qed

lemma removeWall_fields:
  assumes "removeWall st r c d = Inr st1"
  shows "st1 = st\<lparr>maze := maze st1\<rparr>"
  using assms by (auto simp: removeWall_def split: if_splits sum.splits prod.splits)

lemma removeWall_notInMaze:
  assumes "removeWall st r c d = Inr st1"
  shows "notInMaze (maze st1) = notInMaze (maze st)"
  using assms
  by (auto simp: removeWall_def split: if_splits sum.splits prod.splits
      dest!: notInMaze_updCell_same)

lemma removeWall_inMaze:
  assumes "removeWall st r c d = Inr st1"
  shows "map_option inMaze (cellAt (maze st1) r' c') = map_option inMaze (cellAt (maze st) r' c')"
  using assms
  by (auto simp: removeWall_def cellAt_updCell option.map_comp comp_def
      split: if_splits sum.splits prod.splits)

lemma markInMaze_notInMaze:
  assumes "markInMaze st r c = Inr st2" "cellAt (maze st) r c = Some cl" "\<not> inMaze cl"
  shows "Suc (notInMaze (maze st2)) = notInMaze (maze st)"
  using assms notInMaze_setCell[of "maze st" r c cl "cl\<lparr>inMaze := True\<rparr>"]
  by (auto simp: markInMaze_def updCell_Inr split: sum.splits)

lemma addWallsDirs_length:
  "addWallsDirs st r c ds ws = Inr ws' \<Longrightarrow> length ws' \<le> length ws + length ds"
proof (induction ds arbitrary: ws)
  case Nil then show ?case by simp
next
  case (Cons d ds)
  then show ?case
    by (fastforce split: prod.splits if_splits option.splits)
qed

lemma carveCell_measure:
  assumes "carveCell st w nxt ws = Inr (st2, ws2)" "targetFree st nxt = Inr True"
  shows "4 * notInMaze (maze st2) + length ws2 < 4 * notInMaze (maze st) + Suc (length ws)"
proof -
  obtain wr wc d where w: "w = (wr, wc, d)" by (cases w)
  obtain nr nc where n: "nxt = (nr, nc)" by (cases nxt)
  from assms(1) obtain st1 where
    1: "removeWall st wr wc d = Inr st1" and 2: "markInMaze st1 nr nc = Inr st2"
    and 3: "addWalls st2 nr nc ws = Inr ws2"
    by (auto simp: carveCell_def w n split: sum.splits)
  from assms(2) obtain cl where cl: "cellAt (maze st) nr nc = Some cl" "\<not> inMaze cl"
    by (auto simp: targetFree_def n split: if_splits option.splits)
  from removeWall_inMaze[OF 1, of nr nc] cl obtain cl1 where
    cl1: "cellAt (maze st1) nr nc = Some cl1" "\<not> inMaze cl1" by auto
  from markInMaze_notInMaze[OF 2 cl1] removeWall_notInMaze[OF 1]
  have "Suc (notInMaze (maze st2)) = notInMaze (maze st)" by simp
  moreover from addWallsDirs_length[of st2 nr nc "[Top, Right, Bottom, Left]" ws ws2] 3
  have "length ws2 \<le> length ws + 4"
    by (simp add: addWalls_def)
  ultimately show ?thesis by linarith
qed

function carve :: "(nat \<Rightarrow> rat) \<Rightarrow> nat \<Rightarrow> mazegrid \<Rightarrow> wall list \<Rightarrow> error + (nat \<times> mazegrid)" where
  "carve rnd k st ws =
     (if ws = [] \<or> \<not> isGenerating st then Inr (k, st)
      else let i = randomInt (rnd k) (int (length ws)) in
        if i < 0 \<or> int (length ws) \<le> i then Inl TypeError
        else let w = ws ! nat i;
                 ws1 = take (nat i) ws @ drop (Suc (nat i)) ws;
                 nxt = (case w of (wr, wc, d) \<Rightarrow> getCellInDirection wr wc d)
             in case targetFree st nxt of
                  Inl e \<Rightarrow> Inl e
                | Inr free \<Rightarrow>
                    if free
                    then (case carveCell st w nxt ws1 of
                            Inl e \<Rightarrow> Inl e
                          | Inr (st2, ws2) \<Rightarrow> carve rnd (Suc k) st2 ws2)
                    else carve rnd (Suc k) st ws1)"
  by pat_completeness auto
termination
proof (relation "measure (\<lambda>(rnd, k, st, ws). 4 * notInMaze (maze st) + length ws)", goal_cases)
  case 1 show ?case by simp
next
  case (2 rnd k st ws i w ws1 nxt free stws st2 ws2)
  then have "length ws1 < length ws" by auto
  with carveCell_measure[of st w nxt ws1 st2 ws2] 2 show ?case by auto
next
  case (3 rnd k st ws i w ws1 nxt free)
  then show ?case by auto
qed

declare carve.simps [simp del]

subsection \<open>The reset loop of generateMaze (lines 228 to 250)\<close>

text \<open>
  The two nested \<open>for\<close> loops over \<open>row < this.rows\<close> and \<open>col < this.cols\<close>. The test of
  line 230 is \<open>!keepStart || row !== this.start?.row || col !== this.start?.col\<close>; with
  \<open>this.start\<close> null both comparisons are with \<open>undefined\<close> and hold. A cell that passes
  gets \<open>inMaze = false\<close>, \<open>visited = false\<close> and a fresh \<open>walls\<close> object; the Start cell of a
  \<open>keepStart\<close> run is not touched at all. \<open>resetMaze\<close> adds lines 246 to 250.
\<close>

fun resetRow :: "bool \<Rightarrow> pos option \<Rightarrow> int \<Rightarrow> int list \<Rightarrow> cell list list \<Rightarrow> error + cell list list" where
  "resetRow keepStart s r [] m = Inr m"
| "resetRow keepStart s r (c # cs) m =
     (if \<not> keepStart \<or> (case s of None \<Rightarrow> True | Some (sr, sc) \<Rightarrow> r \<noteq> sr \<or> c \<noteq> sc)
      then (case updCell m r c (\<lambda>cl. cl\<lparr>inMaze := False, visited := False, walls := allWalls\<rparr>) of
              Inl e \<Rightarrow> Inl e
            | Inr m1 \<Rightarrow> resetRow keepStart s r cs m1)
      else resetRow keepStart s r cs m)"

fun resetRows :: "bool \<Rightarrow> pos option \<Rightarrow> int list \<Rightarrow> int list \<Rightarrow> cell list list \<Rightarrow> error + cell list list" where
  "resetRows keepStart s [] cs m = Inr m"
| "resetRows keepStart s (r # rs) cs m =
     (case resetRow keepStart s r cs m of
        Inl e \<Rightarrow> Inl e
      | Inr m1 \<Rightarrow> resetRows keepStart s rs cs m1)"

definition resetMaze :: "bool \<Rightarrow> mazegrid \<Rightarrow> error + mazegrid" where
  "resetMaze keepStart st =
     (case resetRows keepStart (start st) [0..rows st - 1] [0..cols st - 1] (maze st) of
        Inl e \<Rightarrow> Inl e
      | Inr m \<Rightarrow>
          (case (if keepStart then start st else None) of
             None \<Rightarrow> Inr (st\<lparr>maze := m\<rparr>)
           | Some (sr, sc) \<Rightarrow>
               (case markInMaze (st\<lparr>maze := m\<rparr>) sr sc of
                  Inl e \<Rightarrow> Inl e
                | Inr st1 \<Rightarrow>
                    (case getCellElement st1 sr sc of
                       Inl e \<Rightarrow> Inl e
                     | Inr u \<Rightarrow> Inr st1))))"

text \<open>
  Lines 252 to 259: the cell carving starts from, and the number of \<open>Math.random()\<close> calls
  used for it (the row is drawn first). \<open>(this.rows - 1) / 2\<close> is a division of numbers,
  not of integers.
\<close>

definition seedCell :: "(nat \<Rightarrow> rat) \<Rightarrow> bool \<Rightarrow> mazegrid \<Rightarrow> pos \<times> nat" where
  "seedCell rnd keepStart st =
     (case (if keepStart then start st else None) of
        Some s \<Rightarrow> (s, 0)
      | None \<Rightarrow>
          ((1 + 2 * \<lfloor>rnd 0 * (of_int (rows st - 1) / 2)\<rfloor>,
            1 + 2 * \<lfloor>rnd 1 * (of_int (cols st - 1) / 2)\<rfloor>), 2))"

subsection \<open>Start and End selection\<close>

text \<open>
  The corner fallback shared by \<open>selectNewEndPoint\<close> (lines 347 to 367) and \<open>selectPoints\<close>
  (lines 403 to 423): \<open>maxDistance\<close> starts at 0 and \<open>bestCorner\<close> at \<open>corners[0]\<close>, and a
  corner replaces the best one only when it is strictly farther.
\<close>

definition corners :: "mazegrid \<Rightarrow> pos list" where
  "corners st = [(0, 0), (0, cols st - 1), (rows st - 1, 0), (rows st - 1, cols st - 1)]"

fun cornerLoop :: "int \<Rightarrow> int \<Rightarrow> pos list \<Rightarrow> int \<times> pos \<Rightarrow> int \<times> pos" where
  "cornerLoop r c [] acc = acc"
| "cornerLoop r c ((row, col) # rest) (maxDistance, bestCorner) =
     (let distance = getManhattanDistance r c row col
      in cornerLoop r c rest
           (if distance > maxDistance then (distance, (row, col)) else (maxDistance, bestCorner)))"

definition farthestCorner :: "mazegrid \<Rightarrow> int \<Rightarrow> int \<Rightarrow> pos" where
  "farthestCorner st r c = snd (cornerLoop r c (corners st) (0, hd (corners st)))"

text \<open>
  The \<open>while (attempts < maxAttempts)\<close> loop of \<open>selectNewEndPoint\<close> with \<open>maxAttempts = 100\<close>:
  two \<open>Math.random()\<close> calls per attempt, the first sample at distance at least
  \<open>minDistance\<close> wins; \<open>None\<close> when the loop runs out.
\<close>

function sampleEnd :: "(nat \<Rightarrow> rat) \<Rightarrow> nat \<Rightarrow> mazegrid \<Rightarrow> pos \<Rightarrow> nat \<Rightarrow> pos option" where
  "sampleEnd rnd k st s attempts =
     (if attempts < 100
      then (let endRow = randomInt (rnd k) (rows st);
                endCol = randomInt (rnd (k + 1)) (cols st);
                distance = getManhattanDistance (fst s) (snd s) endRow endCol
            in if distance \<ge> minDistance st then Some (endRow, endCol)
               else sampleEnd rnd (k + 2) st s (attempts + 1))
      else None)"
  by pat_completeness auto
termination
  by (relation "measure (\<lambda>(rnd, k, st, s, attempts). 100 - attempts)") auto

declare sampleEnd.simps [simp del]

text \<open>
  \<open>selectNewEndPoint\<close> (lines 325 to 370). An exception leaves the grid as it is at the
  throw, which the caller's \<open>catch\<close> then keeps; so the error comes with that state.
\<close>

definition selectNewEndPoint :: "(nat \<Rightarrow> rat) \<Rightarrow> nat \<Rightarrow> mazegrid \<Rightarrow> (error \<times> mazegrid) + mazegrid" where
  "selectNewEndPoint rnd k st =
     (case (case end' st of None \<Rightarrow> Inr () | Some (er, ec) \<Rightarrow> getCellElement st er ec) of
        Inl e \<Rightarrow> Inl (e, st)
      | Inr u \<Rightarrow>
          (case start st of
             None \<Rightarrow> Inl (TypeError, st)
           | Some (sr, sc) \<Rightarrow>
               (let p = (case sampleEnd rnd k st (sr, sc) 0 of
                           Some p \<Rightarrow> p
                         | None \<Rightarrow> farthestCorner st sr sc);
                    st1 = st\<lparr>end' := Some p\<rparr>
                in case getCellElement st1 (fst p) (snd p) of
                     Inl e \<Rightarrow> Inl (e, st1)
                   | Inr u \<Rightarrow> Inr st1)))"

text \<open>\<open>clearPoints\<close> (lines 501 to 509).\<close>

definition clearPoints :: "mazegrid \<Rightarrow> error + mazegrid" where
  "clearPoints st =
     (case (case start st of None \<Rightarrow> Inr () | Some (sr, sc) \<Rightarrow> getCellElement st sr sc) of
        Inl e \<Rightarrow> Inl e
      | Inr u \<Rightarrow>
          (case (case end' st of None \<Rightarrow> Inr () | Some (er, ec) \<Rightarrow> getCellElement st er ec) of
             Inl e \<Rightarrow> Inl e
           | Inr u \<Rightarrow> Inr (st\<lparr>start := None, end' := None\<rparr>)))"

text \<open>
  The sampling loop of \<open>selectPoints\<close> (lines 380 to 400), \<open>maxAttempts = 1000\<close>, four
  \<open>Math.random()\<close> calls per attempt. The accumulator is \<open>maxManhattanDistance\<close> and the four
  \<open>best...\<close> variables, which are assigned together and are \<open>undefined\<close> (\<open>None\<close>) until a
  sample with Start different from End and a larger distance is seen.
\<close>

function samplePairs ::
  "(nat \<Rightarrow> rat) \<Rightarrow> nat \<Rightarrow> mazegrid \<Rightarrow> nat \<Rightarrow> int \<times> (pos \<times> pos) option \<Rightarrow> int \<times> (pos \<times> pos) option" where
  "samplePairs rnd k st attempt acc =
     (if attempt < 1000
      then (let startX = randomInt (rnd k) (rows st);
                startY = randomInt (rnd (k + 1)) (cols st);
                endX = randomInt (rnd (k + 2)) (rows st);
                endY = randomInt (rnd (k + 3)) (cols st);
                manhattanDistance = \<bar>startX - endX\<bar> + \<bar>startY - endY\<bar>
            in samplePairs rnd (k + 4) st (attempt + 1)
                 (if (startX \<noteq> endX \<or> startY \<noteq> endY) \<and> manhattanDistance > fst acc
                  then (manhattanDistance, Some ((startX, startY), (endX, endY)))
                  else acc))
      else acc)"
  by pat_completeness auto
termination
  by (relation "measure (\<lambda>(rnd, k, st, attempt, acc). 1000 - attempt)") auto

declare samplePairs.simps [simp del]

text \<open>
  \<open>selectPoints\<close> (lines 372 to 433). When no sample was recorded, \<open>bestStartRow\<close> and
  \<open>bestStartCol\<close> are \<open>undefined\<close>: \<open>maxManhattanDistance\<close> is 0, every corner distance is
  \<open>NaN\<close>, \<open>bestCorner\<close> stays \<open>corners[0]\<close>, \<open>this.start\<close> becomes
  \<open>{row: undefined, col: undefined}\<close> and \<open>getCellElement(undefined, undefined)\<close> raises
  TypeError on \<open>this.cells[undefined][undefined]\<close>.
\<close>

definition selectPoints :: "(nat \<Rightarrow> rat) \<Rightarrow> nat \<Rightarrow> mazegrid \<Rightarrow> error + mazegrid" where
  "selectPoints rnd k st =
     (case clearPoints st of
        Inl e \<Rightarrow> Inl e
      | Inr st0 \<Rightarrow>
          (case samplePairs rnd k st0 0 (0, None) of
             (maxManhattanDistance, None) \<Rightarrow> Inl TypeError
           | (maxManhattanDistance, Some ((bestStartRow, bestStartCol), bestEnd)) \<Rightarrow>
               (let e = (if maxManhattanDistance = 0
                         then farthestCorner st0 bestStartRow bestStartCol
                         else bestEnd);
                    st1 = st0\<lparr>start := Some (bestStartRow, bestStartCol), end' := Some e\<rparr>
                in case getCellElement st1 bestStartRow bestStartCol of
                     Inl err \<Rightarrow> Inl err
                   | Inr u \<Rightarrow>
                       (case getCellElement st1 (fst e) (snd e) of
                          Inl err \<Rightarrow> Inl err
                        | Inr u \<Rightarrow> Inr st1))))"

subsection \<open>generateMaze\<close>

text \<open>
  \<open>generateMaze\<close> is an async function: its promise resolves to \<open>true\<close> or \<open>false\<close>, is
  rejected by an exception raised before the \<open>try\<close> (reset loop, first \<open>addWalls\<close>), or never
  settles: an exception inside \<open>processChunk\<close> rejects only the promise of the async executor
  of \<open>new Promise\<close>, \<open>resolve\<close> is never called and the \<open>await\<close> of line 266 waits for ever.
  An exception of \<open>selectNewEndPoint\<close> is caught by line 319 and gives \<open>false\<close>.
  \<open>processChunk\<close> returns at once, without selecting points, when \<open>isGenerating\<close> is unset;
  otherwise it carves until the frontier is empty and then, in a full generation, calls
  \<open>selectPoints\<close>.
\<close>

datatype gen_result = Resolved bool mazegrid | Rejected error | NeverSettles

definition processChunk :: "(nat \<Rightarrow> rat) \<Rightarrow> nat \<Rightarrow> bool \<Rightarrow> mazegrid \<Rightarrow> wall list \<Rightarrow> error + (nat \<times> mazegrid)" where
  "processChunk rnd k keepStart st ws =
     (if \<not> isGenerating st then Inr (k, st)
      else case carve rnd k st ws of
        Inl e \<Rightarrow> Inl e
      | Inr (k1, st1) \<Rightarrow>
          if \<not> keepStart
          then (case selectPoints rnd k1 st1 of
                  Inl e \<Rightarrow> Inl e
                | Inr st2 \<Rightarrow> Inr (k1 + 4000, st2))
          else Inr (k1, st1))"

definition generateMaze :: "(nat \<Rightarrow> rat) \<Rightarrow> bool \<Rightarrow> mazegrid \<Rightarrow> gen_result" where
  "generateMaze rnd keepStart st =
     (if isSolving st
      then Resolved False
             (st\<lparr>warnings := warnings st @ [''Cannot generate maze while solving is in progress'']\<rparr>)
      else case resetMaze keepStart st of
        Inl e \<Rightarrow> Rejected e
      | Inr st1 \<Rightarrow>
          (case seedCell rnd keepStart st1 of
             ((startRow, startCol), k) \<Rightarrow>
               (case addWalls st1 startRow startCol [] of
                  Inl e \<Rightarrow> Rejected e
                | Inr ws \<Rightarrow>
                    (case processChunk rnd k keepStart st1 ws of
                       Inl e \<Rightarrow> NeverSettles
                     | Inr (k2, st2) \<Rightarrow>
                         if keepStart \<and> start st2 \<noteq> None
                         then (case selectNewEndPoint rnd k2 st2 of
                                 Inl (e, st3) \<Rightarrow> Resolved False st3
                               | Inr st3 \<Rightarrow> Resolved True st3)
                         else Resolved True st2))))"

section \<open>PriorityQueue\<close>

text \<open>
  \<open>this.values\<close> is the list of entries \<open>{val, priority}\<close>; priorities are numbers, here any
  linear order. \<open>bubbleUpFrom\<close> is the \<open>while\<close> loop of \<open>bubbleUp\<close> from index \<open>idx\<close>
  (\<open>values.length - 1\<close> is \<open>-1\<close> on the empty array, where the loop does not run, as with
  index 0). \<open>pickSwap\<close> is one pass of the body of \<open>sinkDown\<close> up to \<open>if (swap === null)\<close>.
  \<open>dequeue\<close> returns \<open>min?.val\<close>, \<open>None\<close> for \<open>undefined\<close>, and the array left behind.
\<close>

record ('v, 'p) entry =
  val :: 'v
  priority :: 'p

function bubbleUpFrom :: "('v, 'p::linorder) entry list \<Rightarrow> nat \<Rightarrow> ('v, 'p) entry list" where
  "bubbleUpFrom values idx =
     (if idx > 0
      then (let parentIdx = (idx - 1) div 2
            in if priority (values ! parentIdx) \<le> priority (values ! idx) then values
               else bubbleUpFrom (values[parentIdx := values ! idx, idx := values ! parentIdx]) parentIdx)
      else values)"
  by pat_completeness auto
termination
  by (relation "measure (\<lambda>(values, idx). idx)") auto

declare bubbleUpFrom.simps [simp del]

definition bubbleUp :: "('v, 'p::linorder) entry list \<Rightarrow> ('v, 'p) entry list" where
  "bubbleUp values = bubbleUpFrom values (length values - 1)"

definition enqueue :: "('v, 'p::linorder) entry list \<Rightarrow> 'v \<Rightarrow> 'p \<Rightarrow> ('v, 'p) entry list" where
  "enqueue values v p = bubbleUp (values @ [\<lparr>val = v, priority = p\<rparr>])"

definition pickSwap :: "('v, 'p::linorder) entry list \<Rightarrow> nat \<Rightarrow> nat option" where
  "pickSwap values idx =
     (let len = length values;
          left = 2 * idx + 1;
          right = 2 * idx + 2;
          swap = (if left < len \<and> priority (values ! left) < priority (values ! idx)
                  then Some left else None)
      in if right < len \<and>
            ((swap = None \<and> priority (values ! right) < priority (values ! idx)) \<or>
             (swap \<noteq> None \<and> priority (values ! right) < priority (values ! left)))
         then Some right else swap)"

lemma pickSwap_bounds: "pickSwap values idx = Some s \<Longrightarrow> idx < s \<and> s < length values"
  by (auto simp: pickSwap_def Let_def split: if_splits)

function sinkDown :: "('v, 'p::linorder) entry list \<Rightarrow> nat \<Rightarrow> ('v, 'p) entry list" where
  "sinkDown values idx =
     (case pickSwap values idx of
        None \<Rightarrow> values
      | Some swap \<Rightarrow> sinkDown (values[idx := values ! swap, swap := values ! idx]) swap)"
  by pat_completeness auto
termination
  by (relation "measure (\<lambda>(values, idx). length values - idx)")
     (auto dest: pickSwap_bounds)

declare sinkDown.simps [simp del]

definition dequeue :: "('v, 'p::linorder) entry list \<Rightarrow> 'v option \<times> ('v, 'p) entry list" where
  "dequeue values =
     (case values of
        [] \<Rightarrow> (None, [])
      | min0 # rest \<Rightarrow>
          (let end0 = last values; values1 = butlast values
           in if length values1 > 0
              then (Some (val min0), sinkDown (values1[0 := end0]) 0)
              else (Some (val min0), values1)))"

definition isEmpty :: "('v, 'p) entry list \<Rightarrow> bool" where
  "isEmpty values \<longleftrightarrow> length values = 0"

definition contains :: "('v, 'p) entry list \<Rightarrow> 'v \<Rightarrow> bool" where
  "contains values v \<longleftrightarrow> list_ex (\<lambda>item. val item = v) values"

section \<open>solveMaze\<close>

text \<open>
  The local containers of \<open>solveMaze\<close>. \<open>getValidNeighbors\<close> reads the walls of the cell it
  is called on only. \<open>expand\<close> is the \<open>for\<close> loop over the neighbours (lines 546 to 560),
  \<open>astar\<close> the \<open>while\<close> loop (lines 530 to 561) with \<open>iterations\<close> counting the dequeues;
  its exit says whether End was dequeued or the loop condition failed. \<open>reconstructPath\<close>
  follows \<open>cameFrom\<close> for as long as it has an entry; \<open>markPath\<close> is the loop that tags the
  cells of the path other than Start and End. \<open>solveMaze\<close> returns its result (\<open>Found\<close> with
  the path for \<open>true\<close>, \<open>NotFound\<close> for \<open>false\<close>, \<open>Busy\<close> for the \<open>undefined\<close> of line 512),
  the number of dequeues and the grid; \<open>None\<close> if \<open>reconstructPath\<close> does not return.
\<close>

record solver =
  openSet :: "(pos, int) entry list"
  closedSet :: "pos set"
  cameFrom :: "pos \<rightharpoonup> pos"
  gScore :: "pos \<rightharpoonup> int"
  fScore :: "pos \<rightharpoonup> int"

definition getValidNeighbors :: "mazegrid \<Rightarrow> int \<Rightarrow> int \<Rightarrow> error + pos list" where
  "getValidNeighbors st row col =
     (case cellAt (maze st) row col of
        None \<Rightarrow> Inl TypeError
      | Some cl \<Rightarrow>
          Inr ((if \<not> top' (walls cl) \<and> row > 0 then [(row - 1, col)] else []) @
               (if \<not> right (walls cl) \<and> col < cols st - 1 then [(row, col + 1)] else []) @
               (if \<not> bottom (walls cl) \<and> row < rows st - 1 then [(row + 1, col)] else []) @
               (if \<not> left (walls cl) \<and> col > 0 then [(row, col - 1)] else [])))"

definition heuristic :: "pos \<Rightarrow> int \<Rightarrow> int \<Rightarrow> int" where
  "heuristic e row col = getManhattanDistance row col (fst e) (snd e)"

fun expand :: "pos \<Rightarrow> pos \<Rightarrow> pos list \<Rightarrow> solver \<Rightarrow> error + solver" where
  "expand e currentKey [] sv = Inr sv"
| "expand e currentKey (neighborKey # rest) sv =
     (if neighborKey \<in> closedSet sv then expand e currentKey rest sv
      else (case gScore sv currentKey of
              None \<Rightarrow> Inl NotANumber
            | Some g \<Rightarrow>
                (let tentativeG = g + 1
                 in if (case gScore sv neighborKey of None \<Rightarrow> True | Some gn \<Rightarrow> tentativeG < gn)
                    then (let f = tentativeG + heuristic e (fst neighborKey) (snd neighborKey)
                          in expand e currentKey rest
                               (sv\<lparr>cameFrom := (cameFrom sv)(neighborKey \<mapsto> currentKey),
                                   gScore := (gScore sv)(neighborKey \<mapsto> tentativeG),
                                   fScore := (fScore sv)(neighborKey \<mapsto> f),
                                   openSet := (if \<not> contains (openSet sv) neighborKey
                                               then enqueue (openSet sv) neighborKey f
                                               else openSet sv)\<rparr>))
                    else expand e currentKey rest sv)))"

datatype loop_exit = ReachedEnd "pos \<rightharpoonup> pos" pos nat | LoopEnded nat

function astar :: "mazegrid \<Rightarrow> pos \<Rightarrow> nat \<Rightarrow> solver \<Rightarrow> error + loop_exit" where
  "astar st endKey iterations sv =
     (if \<not> isEmpty (openSet sv) \<and> int iterations < rows st * cols st
      then (case dequeue (openSet sv) of
              (None, values) \<Rightarrow> Inl TypeError
            | (Some currentKey, values) \<Rightarrow>
                if currentKey = endKey
                then Inr (ReachedEnd (cameFrom sv) currentKey (Suc iterations))
                else (case getValidNeighbors st (fst currentKey) (snd currentKey) of
                        Inl err \<Rightarrow> Inl err
                      | Inr neighbors \<Rightarrow>
                          (case expand endKey currentKey neighbors
                                  (sv\<lparr>openSet := values,
                                      closedSet := insert currentKey (closedSet sv)\<rparr>) of
                             Inl err \<Rightarrow> Inl err
                           | Inr sv1 \<Rightarrow> astar st endKey (Suc iterations) sv1)))
      else Inr (LoopEnded iterations))"
  by pat_completeness auto
termination
  by (relation "measure (\<lambda>(st, endKey, iterations, sv). nat (rows st * cols st) - iterations)") auto

declare astar.simps [simp del]

partial_function (option) reconstructPath :: "(pos \<rightharpoonup> pos) \<Rightarrow> pos \<Rightarrow> pos list \<Rightarrow> pos list option" where
  "reconstructPath cameFrom0 currentKey path =
     (case cameFrom0 currentKey of
        None \<Rightarrow> Some path
      | Some previous \<Rightarrow> reconstructPath cameFrom0 previous (previous # path))"

declare reconstructPath.simps [code]

definition markPath :: "mazegrid \<Rightarrow> pos \<Rightarrow> pos \<Rightarrow> pos list \<Rightarrow> error + unit" where
  "markPath st s e path =
     (if list_all (\<lambda>key. key = s \<or> key = e \<or> isValidCell st (fst key) (snd key)) path
      then Inr () else Inl TypeError)"

text \<open>The five containers of lines 515 to 526, after Start has been entered.\<close>

definition initialSolver :: "pos \<Rightarrow> pos \<Rightarrow> solver" where
  "initialSolver startKey endKey =
     \<lparr>openSet = enqueue [] startKey 0, closedSet = {},
      cameFrom = Map.empty, gScore = [startKey \<mapsto> 0],
      fScore = [startKey \<mapsto> heuristic endKey (fst startKey) (snd startKey)]\<rparr>"

datatype solve_result = Found "pos list" | NotFound | Busy

definition solveMaze :: "mazegrid \<Rightarrow> (error + solve_result \<times> nat \<times> mazegrid) option" where
  "solveMaze st =
     (if solving st then Some (Inr (Busy, 0, st))
      else case start st of
        None \<Rightarrow> Some (Inl TypeError)
      | Some startKey \<Rightarrow>
          (case end' st of
             None \<Rightarrow> Some (Inl TypeError)
           | Some endKey \<Rightarrow>
               (case astar st endKey 0 (initialSolver startKey endKey) of
                  Inl err \<Rightarrow> Some (Inl err)
                | Inr (LoopEnded n) \<Rightarrow> Some (Inr (NotFound, n, st\<lparr>solving := False\<rparr>))
                | Inr (ReachedEnd cf currentKey n) \<Rightarrow>
                    (case reconstructPath cf currentKey [currentKey] of
                       None \<Rightarrow> None
                     | Some path \<Rightarrow>
                         (case markPath st startKey endKey path of
                            Inl err \<Rightarrow> Some (Inl err)
                          | Inr u \<Rightarrow> Some (Inr (Found path, n, st\<lparr>solving := False\<rparr>)))))))"

section \<open>Predicates used in the statements\<close>

text \<open>\<open>frame st st'\<close>: only the cells of the grid differ, and the array keeps its shape.\<close>

definition frame :: "mazegrid \<Rightarrow> mazegrid \<Rightarrow> bool" where
  "frame st st' \<longleftrightarrow> st' = st\<lparr>maze := maze st'\<rparr> \<and> map length (maze st') = map length (maze st)"

definition cellInMaze :: "mazegrid \<Rightarrow> int \<Rightarrow> int \<Rightarrow> bool" where
  "cellInMaze st r c \<longleftrightarrow> (case cellAt (maze st) r c of None \<Rightarrow> False | Some cl \<Rightarrow> inMaze cl)"

definition resetCond :: "bool \<Rightarrow> pos option \<Rightarrow> int \<Rightarrow> int \<Rightarrow> bool" where
  "resetCond keepStart s r c \<longleftrightarrow>
     \<not> keepStart \<or> (case s of None \<Rightarrow> True | Some (sr, sc) \<Rightarrow> r \<noteq> sr \<or> c \<noteq> sc)"

text \<open>
  The grid \<open>initializeGrid\<close> builds for \<open>r\<close> rows and \<open>c\<close> columns, with the
  constructor's settings (\<open>mazeDifficulty = 5\<close>, hence \<open>minDistance = max(10, floor(12.5)) = 12\<close>).
\<close>

definition newGrid :: "int \<Rightarrow> int \<Rightarrow> mazegrid" where
  "newGrid r c =
     \<lparr>rows = r, cols = c, maze = replicate (nat r) (replicate (nat c) blankCell),
      start = None, end' = None, minDistance = 12, isGenerating = False, isSolving = False,
      solving = False, warnings = []\<rparr>"

text \<open>An oracle that replays a list and returns \<open>0\<close> afterwards.\<close>

definition rndOf :: "rat list \<Rightarrow> nat \<Rightarrow> rat" where
  "rndOf xs k = (if k < length xs then xs ! k else 0)"

text \<open>
  The pair (Start, End) drawn in attempt \<open>a\<close> of the sampling loop of \<open>selectPoints\<close>, whose
  first \<open>Math.random()\<close> call is call number \<open>k\<close>, and the Manhattan distance of two positions.
\<close>

definition samplePair :: "(nat \<Rightarrow> rat) \<Rightarrow> nat \<Rightarrow> mazegrid \<Rightarrow> nat \<Rightarrow> pos \<times> pos" where
  "samplePair rnd k st a =
     ((randomInt (rnd (k + 4 * a)) (rows st), randomInt (rnd (k + 4 * a + 1)) (cols st)),
      (randomInt (rnd (k + 4 * a + 2)) (rows st), randomInt (rnd (k + 4 * a + 3)) (cols st)))"

definition manhattan :: "pos \<Rightarrow> pos \<Rightarrow> int" where
  "manhattan p q = getManhattanDistance (fst p) (snd p) (fst q) (snd q)"

text \<open>
  Predicates on a grid: the cells in row-major order; a wall flag of a cell; symmetry of the
  flags of every pair of adjacent cells; the number of removed walls between adjacent cells
  (each wall counted once, on the side of its left or upper cell); a step the solver may
  take (\<open>getValidNeighbors\<close>); a walk along such steps.
\<close>

text \<open>
  Example data: a carved cell with the given wall flags (top, right, bottom, left); two
  oracles; the 3 by 3 grid a full generation reaches with \<open>cycleOracle\<close>, and the grid a
  partial regeneration reaches from it with \<open>regenOracle\<close>.
\<close>

definition carved :: "bool \<Rightarrow> bool \<Rightarrow> bool \<Rightarrow> bool \<Rightarrow> cell" where
  "carved t r b l = \<lparr>visited = False, walls = \<lparr>top' = t, right = r, bottom = b, left = l\<rparr>, inMaze = True\<rparr>"

definition cycleOracle :: "nat \<Rightarrow> rat" where
  "cycleOracle = rndOf [0, 0, 0, 1/2, 5/6, 6/7, 0, 0, 0, 0, 0, 0, 0, 0, 0, 0, 0, 0, 0, 0, 0, 1/3]"

definition cyclicMaze :: mazegrid where
  "cyclicMaze =
     \<lparr>rows = 3, cols = 3,
      maze = [[carved True False True True, carved True False False False, carved True True False False],
              [carved True False True True, carved False False False False, carved False True False False],
              [carved True False True True, carved False True True False, carved False True True True]],
      start = Some (0, 0), end' = Some (0, 1), minDistance = 12, isGenerating = True,
      isSolving = False, solving = False, warnings = []\<rparr>"

definition asymMaze :: mazegrid where
  "asymMaze =
     \<lparr>rows = 3, cols = 3,
      maze = [[carved True False True True, carved True False False False, carved True True False False],
              [carved True False True True, carved True False False False, carved False True False False],
              [carved True False True True, carved False True True False, carved False True True True]],
      start = Some (0, 1), end' = Some (2, 0), minDistance = 12, isGenerating = True,
      isSolving = False, solving = False, warnings = []\<rparr>"

definition cells :: "mazegrid \<Rightarrow> pos list" where
  "cells st = concat (map (\<lambda>r. map (\<lambda>c. (r, c)) [0..cols st - 1]) [0..rows st - 1])"

definition wallFlag :: "mazegrid \<Rightarrow> pos \<Rightarrow> direction \<Rightarrow> bool option" where
  "wallFlag st p d = map_option (\<lambda>cl. wallAt (walls cl) d) (cellAt (maze st) (fst p) (snd p))"

definition wallsSymmetric :: "mazegrid \<Rightarrow> bool" where
  "wallsSymmetric st \<longleftrightarrow>
     list_all (\<lambda>(r, c). list_all (\<lambda>d.
         case getCellInDirection r c d of (nr, nc) \<Rightarrow>
           isValidCell st nr nc \<longrightarrow> wallFlag st (r, c) d = wallFlag st (nr, nc) (opposite d))
       [Top, Right, Bottom, Left]) (cells st)"

definition removedWalls :: "mazegrid \<Rightarrow> nat" where
  "removedWalls st =
     length (filter (\<lambda>(p, d). case getCellInDirection (fst p) (snd p) d of (nr, nc) \<Rightarrow>
                 isValidCell st nr nc \<and> wallFlag st p d = Some False)
               (concat (map (\<lambda>p. [(p, Right), (p, Bottom)]) (cells st))))"

definition corridor :: "mazegrid \<Rightarrow> pos \<Rightarrow> pos \<Rightarrow> bool" where
  "corridor st a b \<longleftrightarrow>
     (case getValidNeighbors st (fst a) (snd a) of Inl e \<Rightarrow> False | Inr ns \<Rightarrow> b \<in> set ns)"

definition corridorPath :: "mazegrid \<Rightarrow> pos list \<Rightarrow> bool" where
  "corridorPath st p \<longleftrightarrow> p \<noteq> [] \<and> successively (corridor st) p"

definition regenOracle :: "nat \<Rightarrow> rat" where
  "regenOracle = rndOf [0, 2/3, 3/4]"

text \<open>
  The binary min-heap invariant on the array \<open>values\<close> of a PriorityQueue, and the queue
  operations as data, so that a sequence of them can be run from \<open>new PriorityQueue()\<close>.
\<close>

definition parent :: "nat \<Rightarrow> nat" where
  "parent i = (i - 1) div 2"

definition is_heap :: "('v, 'p::linorder) entry list \<Rightarrow> bool" where
  "is_heap vs \<longleftrightarrow> (\<forall>i < length vs. 0 < i \<longrightarrow> priority (vs ! parent i) \<le> priority (vs ! i))"

text \<open>A heap except that the entry at \<open>k\<close> may be smaller than its parent.\<close>

definition heap_but_up :: "('v, 'p::linorder) entry list \<Rightarrow> nat \<Rightarrow> bool" where
  "heap_but_up vs k \<longleftrightarrow>
     (\<forall>i < length vs. 0 < i \<longrightarrow> i \<noteq> k \<longrightarrow> priority (vs ! parent i) \<le> priority (vs ! i)) \<and>
     (\<forall>i < length vs. 0 < i \<longrightarrow> parent i = k \<longrightarrow> 0 < k \<longrightarrow>
          priority (vs ! parent k) \<le> priority (vs ! i))"

text \<open>A heap except that the entry at \<open>k\<close> may be larger than its children.\<close>

definition heap_but_down :: "('v, 'p::linorder) entry list \<Rightarrow> nat \<Rightarrow> bool" where
  "heap_but_down vs k \<longleftrightarrow>
     (\<forall>i < length vs. 0 < i \<longrightarrow> parent i \<noteq> k \<longrightarrow> priority (vs ! parent i) \<le> priority (vs ! i)) \<and>
     (\<forall>i < length vs. 0 < i \<longrightarrow> parent i = k \<longrightarrow> 0 < k \<longrightarrow>
          priority (vs ! parent k) \<le> priority (vs ! i))"

datatype ('v, 'p) pq_op = Enqueue 'v 'p | Dequeue

fun applyOp :: "('v, 'p::linorder) entry list \<Rightarrow> ('v, 'p) pq_op \<Rightarrow> ('v, 'p) entry list" where
  "applyOp vs (Enqueue v p) = enqueue vs v p"
| "applyOp vs Dequeue = snd (dequeue vs)"

definition exampleOps :: "(string, int) pq_op list" where
  "exampleOps = [Enqueue ''a'' 5, Enqueue ''b'' 3, Enqueue ''c'' 4, Enqueue ''d'' 1, Dequeue]"

text \<open>
  For the solver: \<open>chain cf p\<close> says that \<open>p\<close> is what \<open>reconstructPath\<close> builds from the
  predecessor map \<open>cf\<close> (it starts at a key without predecessor, and each key's predecessor is
  the key before it); \<open>simplePath st p a b\<close>: \<open>p\<close> leads from \<open>a\<close> to \<open>b\<close> through removed walls
  and visits no cell twice; \<open>reachable\<close>: some walk through removed walls exists;
  \<open>perfectMaze\<close>: wall flags are symmetric and any two cells are joined by exactly one simple
  path (the corridor graph is a spanning tree). \<open>solverInv\<close> is the loop invariant of the
  main loop of \<open>solveMaze\<close> after \<open>k\<close> dequeues.
\<close>

definition chain :: "(pos \<rightharpoonup> pos) \<Rightarrow> pos list \<Rightarrow> bool" where
  "chain cf p \<longleftrightarrow> p \<noteq> [] \<and> cf (hd p) = None \<and> successively (\<lambda>a b. cf b = Some a) p"

definition okeys :: "solver \<Rightarrow> pos set" where
  "okeys sv = val ` set (openSet sv)"

definition validPos :: "mazegrid \<Rightarrow> pos \<Rightarrow> bool" where
  "validPos st p \<longleftrightarrow> isValidCell st (fst p) (snd p)"

definition simplePath :: "mazegrid \<Rightarrow> pos list \<Rightarrow> pos \<Rightarrow> pos \<Rightarrow> bool" where
  "simplePath st p a b \<longleftrightarrow>
     corridorPath st p \<and> distinct p \<and> hd p = a \<and> last p = b \<and> list_all (validPos st) p"

definition solverInv :: "mazegrid \<Rightarrow> pos \<Rightarrow> pos \<Rightarrow> nat \<Rightarrow> solver \<Rightarrow> bool" where
  "solverInv st s e k sv \<longleftrightarrow>
     distinct (map val (openSet sv)) \<and>
     okeys sv \<inter> closedSet sv = {} \<and>
     okeys sv \<union> closedSet sv = dom (gScore sv) \<and>
     (\<forall>n \<in> dom (gScore sv). validPos st n) \<and>
     e \<notin> closedSet sv \<and>
     s \<in> dom (gScore sv) \<and>
     finite (closedSet sv) \<and> card (closedSet sv) = k \<and>
     (\<forall>n \<in> dom (gScore sv). \<exists>p. chain (cameFrom sv) p \<and> simplePath st p s n \<and>
          set (butlast p) \<subseteq> closedSet sv)"

text \<open>Every cell the solver may step to from a cell of \<open>X\<close> has a gScore.\<close>

definition expanded :: "mazegrid \<Rightarrow> solver \<Rightarrow> pos set \<Rightarrow> bool" where
  "expanded st sv X \<longleftrightarrow> (\<forall>c \<in> X. \<forall>n. corridor st c n \<longrightarrow> n \<in> dom (gScore sv))"

definition reachable :: "mazegrid \<Rightarrow> pos \<Rightarrow> pos \<Rightarrow> bool" where
  "reachable st a b \<longleftrightarrow> (\<exists>p. corridorPath st p \<and> hd p = a \<and> last p = b)"

definition perfectMaze :: "mazegrid \<Rightarrow> bool" where
  "perfectMaze st \<longleftrightarrow>
     wallsSymmetric st \<and>
     (\<forall>a b. validPos st a \<and> validPos st b \<longrightarrow> (\<exists>!p. simplePath st p a b))"

text \<open>
  Example data for the solver: a fully carved 1 by 3 corridor with Start and End at its two
  ends, and the blank 3 by 3 grid (every wall present) with Start and End in opposite corners.
\<close>

definition corridorGrid :: mazegrid where
  "corridorGrid =
     \<lparr>rows = 1, cols = 3,
      maze = [[carved True False True True, carved True False True False, carved True True True False]],
      start = Some (0, 0), end' = Some (0, 2), minDistance = 12, isGenerating = False,
      isSolving = False, solving = False, warnings = []\<rparr>"

definition walledGrid :: mazegrid where
  "walledGrid = (newGrid 3 3)\<lparr>start := Some (0, 0), end' := Some (2, 2)\<rparr>"

section \<open>The generator: no exception on a well-formed grid\<close>

subsection \<open>Shape of the grid array\<close>

lemma shape_setCell: "map length (setCell m r c v) = map length m"
proof (cases "nat r < length m")
  case True
  then have "(map length m)[nat r := length (m ! nat r)] = map length m"
    by (metis list_update_id nth_map)
  then show ?thesis by (simp add: setCell_def map_update)
next
  case False
  then have "m[nat r := (m ! nat r)[nat c := v]] = m"
    by (intro list_update_beyond) simp
  then show ?thesis by (simp add: setCell_def)
qed

lemma shape_updCell: "updCell m r c f = Inr m' \<Longrightarrow> map length m' = map length m"
  by (auto simp: updCell_Inr shape_setCell)

lemma cellAt_shape:
  assumes "map length m' = map length m"
  shows "(cellAt m' r c = None) = (cellAt m r c = None)"
proof -
  from assms have l: "length m' = length m" by (metis length_map)
  have "\<And>i. i < length m \<Longrightarrow> length (m' ! i) = length (m ! i)"
    using assms l by (metis nth_map)
  with l show ?thesis by (auto simp: cellAt_def)
qed

lemma wf_grid_shape:
  assumes "wf_grid st" "map length (maze st') = map length (maze st)"
    "rows st' = rows st" "cols st' = cols st"
  shows "wf_grid st'"
proof -
  from assms(2) have "length (maze st') = length (maze st)" by (metis length_map)
  moreover from assms(2) have "length ` set (maze st') = length ` set (maze st)"
    by (metis set_map)
  ultimately show ?thesis using assms(1,3,4) unfolding wf_grid_def by (metis imageE imageI)
qed

lemma wf_cellAt: "wf_grid st \<Longrightarrow> (cellAt (maze st) r c \<noteq> None) = isValidCell st r c"
proof -
  assume wf: "wf_grid st"
  then have len: "length (maze st) = nat (rows st)" by (simp add: wf_grid_def)
  show ?thesis
  proof (cases "0 \<le> r \<and> r < rows st")
    case True
    with len have "nat r < length (maze st)" by linarith
    with wf have "length (maze st ! nat r) = nat (cols st)" by (simp add: wf_grid_def)
    with True len show ?thesis by (auto simp: cellAt_def isValidCell_def)
  next
    case False
    with len show ?thesis by (auto simp: cellAt_def isValidCell_def)
  qed
qed

lemma isValidCell_cong:
  "rows st' = rows st \<Longrightarrow> cols st' = cols st \<Longrightarrow> isValidCell st' = isValidCell st"
  by (auto simp: isValidCell_def fun_eq_iff)

lemma frame_refl: "frame st st"
  by (simp add: frame_def)

lemma frame_trans: "frame a b \<Longrightarrow> frame b c \<Longrightarrow> frame a c"
  by (auto simp: frame_def) (metis mazegrid.update_convs(3) mazegrid.surjective)

lemma frame_fields:
  assumes "frame st st'"
  shows "rows st' = rows st" "cols st' = cols st" "start st' = start st" "end' st' = end' st"
    "minDistance st' = minDistance st" "isGenerating st' = isGenerating st"
    "isSolving st' = isSolving st" "solving st' = solving st" "warnings st' = warnings st"
    "isValidCell st' = isValidCell st"
proof -
  from assms have e: "st' = st\<lparr>maze := maze st'\<rparr>" by (simp add: frame_def)
  show "rows st' = rows st" by (subst e) simp
  show "cols st' = cols st" by (subst e) simp
  show "start st' = start st" by (subst e) simp
  show "end' st' = end' st" by (subst e) simp
  show "minDistance st' = minDistance st" by (subst e) simp
  show "isGenerating st' = isGenerating st" by (subst e) simp
  show "isSolving st' = isSolving st" by (subst e) simp
  show "solving st' = solving st" by (subst e) simp
  show "warnings st' = warnings st" by (subst e) simp
  show "isValidCell st' = isValidCell st"
    by (subst e) (simp add: isValidCell_def fun_eq_iff)
qed

lemma frame_wf: "frame st st' \<Longrightarrow> wf_grid st \<Longrightarrow> wf_grid st'"
  using wf_grid_shape frame_fields(1,2) by (metis frame_def)

lemma frame_maze_upd:
  "map length m = map length (maze st) \<Longrightarrow> frame st (st\<lparr>maze := m\<rparr>)"
  by (simp add: frame_def)

lemma removeWall_frame: "removeWall st r c d = Inr st1 \<Longrightarrow> frame st st1"
  by (auto simp: removeWall_def frame_def shape_updCell
      split: if_splits sum.splits prod.splits dest!: shape_updCell)

lemma removeWall_ok:
  assumes "wf_grid st"
  shows "\<exists>st1. removeWall st r c d = Inr st1"
proof (cases "isValidCell st r c")
  case False
  then show ?thesis by (simp add: removeWall_def)
next
  case True
  with wf_cellAt[OF assms] obtain cl where cl: "cellAt (maze st) r c = Some cl" by auto
  then have u1: "updCell (maze st) r c (\<lambda>cl. cl\<lparr>walls := clearWall d (walls cl)\<rparr>)
      = Inr (setCell (maze st) r c (cl\<lparr>walls := clearWall d (walls cl)\<rparr>))"
    (is "_ = Inr ?m1")
    by (simp add: updCell_def)
  obtain nr nc where n: "getCellInDirection r c d = (nr, nc)" by (cases "getCellInDirection r c d")
  show ?thesis
  proof (cases "isValidCell st nr nc")
    case False
    with True u1 n show ?thesis by (simp add: removeWall_def)
  next
    case v: True
    with wf_cellAt[OF assms] have "cellAt (maze st) nr nc \<noteq> None" by simp
    with cellAt_shape[OF shape_setCell, of "maze st" r c _ nr nc]
    have "cellAt ?m1 nr nc \<noteq> None" by simp
    then obtain cl2 where "cellAt ?m1 nr nc = Some cl2" by auto
    with True u1 n v show ?thesis by (simp add: removeWall_def updCell_def)
  qed
qed

lemma markInMaze_frame: "markInMaze st r c = Inr st2 \<Longrightarrow> frame st st2"
  by (auto simp: markInMaze_def frame_def split: sum.splits dest!: shape_updCell)

lemma markInMaze_ok:
  "wf_grid st \<Longrightarrow> isValidCell st r c \<Longrightarrow> \<exists>st2. markInMaze st r c = Inr st2"
  using wf_cellAt[of st r c] by (auto simp: markInMaze_def updCell_def split: option.splits)

lemma addWallsDirs_ok:
  "wf_grid st \<Longrightarrow> \<exists>ws'. addWallsDirs st r c ds ws = Inr ws'"
proof (induction ds arbitrary: ws)
  case Nil then show ?case by simp
next
  case (Cons d ds)
  obtain nr nc where n: "getCellInDirection r c d = (nr, nc)" by (cases "getCellInDirection r c d")
  show ?case
  proof (cases "isValidCell st nr nc")
    case False
    with n Cons show ?thesis by simp
  next
    case True
    with wf_cellAt[OF Cons.prems] obtain cl where "cellAt (maze st) nr nc = Some cl" by auto
    with n True Cons show ?thesis by simp
  qed
qed

lemma addWalls_ok: "wf_grid st \<Longrightarrow> \<exists>ws'. addWalls st r c ws = Inr ws'"
  unfolding addWalls_def by (rule addWallsDirs_ok)

lemma targetFree_ok: "wf_grid st \<Longrightarrow> \<exists>b. targetFree st nxt = Inr b"
  using wf_cellAt[of st "fst nxt" "snd nxt"]
  by (cases nxt) (auto simp: targetFree_def split: option.splits)

lemma targetFree_valid: "targetFree st (nr, nc) = Inr True \<Longrightarrow> isValidCell st nr nc"
  by (auto simp: targetFree_def split: if_splits option.splits)

lemma carveCell_frame:
  assumes "carveCell st w nxt ws = Inr (st2, ws2)"
  shows "frame st st2"
proof -
  obtain wr wc d where w: "w = (wr, wc, d)" by (cases w)
  obtain nr nc where n: "nxt = (nr, nc)" by (cases nxt)
  from assms obtain st1 where
    1: "removeWall st wr wc d = Inr st1" and 2: "markInMaze st1 nr nc = Inr st2"
    by (auto simp: carveCell_def w n split: sum.splits)
  from removeWall_frame[OF 1] markInMaze_frame[OF 2] show ?thesis by (rule frame_trans)
qed

lemma carveCell_ok:
  assumes "wf_grid st" "targetFree st nxt = Inr True"
  shows "\<exists>st2 ws2. carveCell st w nxt ws = Inr (st2, ws2)"
proof -
  obtain wr wc d where w: "w = (wr, wc, d)" by (cases w)
  obtain nr nc where n: "nxt = (nr, nc)" by (cases nxt)
  from removeWall_ok[OF assms(1)] obtain st1 where 1: "removeWall st wr wc d = Inr st1" by blast
  note f1 = removeWall_frame[OF 1]
  have wf1: "wf_grid st1" using f1 assms(1) by (rule frame_wf)
  from targetFree_valid assms(2) n have "isValidCell st nr nc" by simp
  then have "isValidCell st1 nr nc" using frame_fields(10)[OF f1] by simp
  from markInMaze_ok[OF wf1 this] obtain st2 where 2: "markInMaze st1 nr nc = Inr st2" by blast
  have wf2: "wf_grid st2" using markInMaze_frame[OF 2] wf1 by (rule frame_wf)
  from addWalls_ok[OF wf2] obtain ws2 where "addWalls st2 nr nc ws = Inr ws2" by blast
  with 1 2 show ?thesis by (simp add: carveCell_def w n)
qed

lemma randomInt_range:
  assumes "0 \<le> x" "x < 1" "0 < n"
  shows "0 \<le> randomInt x n \<and> randomInt x n < n"
proof -
  have "0 \<le> x * of_int n" using assms by simp
  moreover have "x * of_int n < of_int n" using assms by simp
  ultimately show ?thesis unfolding randomInt_def by (simp add: floor_less_iff)
qed

lemma carve_ok:
  "unit_rnd rnd \<Longrightarrow> wf_grid st \<Longrightarrow> \<exists>k' st'. carve rnd k st ws = Inr (k', st') \<and> frame st st'"
proof (induction rnd k st ws rule: carve.induct)
  case (1 rnd k st ws)
  note ur = "1.prems"(1) and wf = "1.prems"(2)
  show ?case
  proof (cases "ws = [] \<or> \<not> isGenerating st")
    case True
    then show ?thesis by (subst carve.simps) (auto simp: frame_refl)
  next
    case False
    define i where "i = randomInt (rnd k) (int (length ws))"
    define w where "w = ws ! nat i"
    define ws1 where "ws1 = take (nat i) ws @ drop (Suc (nat i)) ws"
    define nxt where "nxt = (case w of (wr, wc, d) \<Rightarrow> getCellInDirection wr wc d)"
    from False have "0 < int (length ws)" by simp
    with randomInt_range[of "rnd k" "int (length ws)"] ur
    have i: "\<not> (i < 0 \<or> int (length ws) \<le> i)" by (auto simp: unit_rnd_def i_def)
    from targetFree_ok[OF wf] obtain free where fr: "targetFree st nxt = Inr free" by blast
    show ?thesis
    proof (cases free)
      case True
      from fr True have "targetFree st nxt = Inr True" by simp
      from carveCell_ok[OF wf this, of w ws1] obtain st2 ws2 where
        cc: "carveCell st w nxt ws1 = Inr (st2, ws2)" by blast
      note f2 = carveCell_frame[OF cc]
      have wf2: "wf_grid st2" using f2 wf by (rule frame_wf)
      from "1.IH"(1)[OF False i_def i w_def ws1_def nxt_def fr True cc refl ur wf2]
      obtain k' st' where r: "carve rnd (Suc k) st2 ws2 = Inr (k', st')" "frame st2 st'" by blast
      have "carve rnd k st ws = carve rnd (Suc k) st2 ws2"
        using False i fr True cc
        by (subst carve.simps) (simp add: Let_def i_def[symmetric] w_def[symmetric]
            ws1_def[symmetric] nxt_def[symmetric])
      with r frame_trans[OF f2 r(2)] show ?thesis by simp
    next
      case nf: False
      from "1.IH"(2)[OF False i_def i w_def ws1_def nxt_def fr nf ur wf]
      obtain k' st' where r: "carve rnd (Suc k) st ws1 = Inr (k', st')" "frame st st'" by blast
      have "carve rnd k st ws = carve rnd (Suc k) st ws1"
        using False i fr nf
        by (subst carve.simps) (simp add: Let_def i_def[symmetric] w_def[symmetric]
            ws1_def[symmetric] nxt_def[symmetric])
      with r show ?thesis by simp
    qed
  qed
qed

lemma carve_unfold:
  assumes "ws \<noteq> []" "isGenerating st" "i = randomInt (rnd k) (int (length ws))"
    "w = ws ! nat i" "ws1 = take (nat i) ws @ drop (Suc (nat i)) ws"
    "nxt = (case w of (wr, wc, d) \<Rightarrow> getCellInDirection wr wc d)"
  shows "carve rnd k st ws =
      (if i < 0 \<or> int (length ws) \<le> i then Inl TypeError
       else case targetFree st nxt of Inl e \<Rightarrow> Inl e
         | Inr free \<Rightarrow> if free
            then (case carveCell st w nxt ws1 of Inl e \<Rightarrow> Inl e
                  | Inr (st2, ws2) \<Rightarrow> carve rnd (Suc k) st2 ws2)
            else carve rnd (Suc k) st ws1)"
  unfolding assms(3-6) using assms(1,2)
  by (subst carve.simps) (simp add: Let_def)

lemma carve_preserves:
  assumes step: "\<And>st w nxt ws st2 ws2. Q st \<Longrightarrow> targetFree st nxt = Inr True \<Longrightarrow>
      carveCell st w nxt ws = Inr (st2, ws2) \<Longrightarrow> Q st2"
  shows "carve rnd k st ws = Inr (k', st') \<Longrightarrow> Q st \<Longrightarrow> Q st'"
proof (induction rnd k st ws rule: carve.induct)
  case (1 rnd k st ws)
  show ?case
  proof (cases "ws = [] \<or> \<not> isGenerating st")
    case True
    with "1.prems" show ?thesis by (subst (asm) carve.simps) auto
  next
    case False
    define i where "i = randomInt (rnd k) (int (length ws))"
    define w where "w = ws ! nat i"
    define ws1 where "ws1 = take (nat i) ws @ drop (Suc (nat i)) ws"
    define nxt where "nxt = (case w of (wr, wc, d) \<Rightarrow> getCellInDirection wr wc d)"
    have unf: "carve rnd k st ws =
      (if i < 0 \<or> int (length ws) \<le> i then Inl TypeError
       else case targetFree st nxt of Inl e \<Rightarrow> Inl e
         | Inr free \<Rightarrow> if free
            then (case carveCell st w nxt ws1 of Inl e \<Rightarrow> Inl e
                  | Inr (st2, ws2) \<Rightarrow> carve rnd (Suc k) st2 ws2)
            else carve rnd (Suc k) st ws1)"
      using False by (intro carve_unfold i_def w_def ws1_def nxt_def) auto
    from "1.prems"(1) unf have i: "\<not> (i < 0 \<or> int (length ws) \<le> i)" by (auto split: if_splits)
    from "1.prems"(1) unf i obtain free where fr: "targetFree st nxt = Inr free"
      by (auto split: sum.splits)
    show ?thesis
    proof (cases free)
      case True
      from "1.prems"(1) unf i fr True obtain st2 ws2 where
        cc: "carveCell st w nxt ws1 = Inr (st2, ws2)"
        and r: "carve rnd (Suc k) st2 ws2 = Inr (k', st')"
        by (auto split: sum.splits)
      from step[OF "1.prems"(2) _ cc] fr True have "Q st2" by simp
      from "1.IH"(1)[OF False i_def i w_def ws1_def nxt_def fr True cc refl r this]
      show ?thesis .
    next
      case nf: False
      from "1.prems"(1) unf i fr nf have r: "carve rnd (Suc k) st ws1 = Inr (k', st')" by simp
      from "1.IH"(2)[OF False i_def i w_def ws1_def nxt_def fr nf r "1.prems"(2)]
      show ?thesis .
    qed
  qed
qed

lemma cellInMaze_alt: "cellInMaze st r c \<longleftrightarrow> map_option inMaze (cellAt (maze st) r c) = Some True"
  by (auto simp: cellInMaze_def split: option.splits)

lemma markInMaze_inMaze:
  assumes "markInMaze st r c = Inr st2"
  shows "cellInMaze st2 r' c' \<longleftrightarrow> (r' = r \<and> c' = c) \<or> cellInMaze st r' c'"
proof -
  from assms obtain m where m: "updCell (maze st) r c (\<lambda>cl. cl\<lparr>inMaze := True\<rparr>) = Inr m"
    and st2: "st2 = st\<lparr>maze := m\<rparr>"
    by (auto simp: markInMaze_def split: sum.splits)
  from m obtain cl where "cellAt (maze st) r c = Some cl" by (auto simp: updCell_Inr)
  with cellAt_updCell[OF m, of r' c'] st2 show ?thesis
    by (auto simp: cellInMaze_def split: option.splits)
qed

lemma carveCell_inMaze:
  assumes "carveCell st w nxt ws = Inr (st2, ws2)"
  shows "cellInMaze st2 r c \<longleftrightarrow> (r, c) = nxt \<or> cellInMaze st r c"
proof -
  obtain wr wc d where w: "w = (wr, wc, d)" by (cases w)
  obtain nr nc where n: "nxt = (nr, nc)" by (cases nxt)
  from assms obtain st1 where
    1: "removeWall st wr wc d = Inr st1" and 2: "markInMaze st1 nr nc = Inr st2"
    by (auto simp: carveCell_def w n split: sum.splits)
  from removeWall_inMaze[OF 1, of r c] have "cellInMaze st1 r c = cellInMaze st r c"
    by (simp add: cellInMaze_alt)
  with markInMaze_inMaze[OF 2, of r c] n show ?thesis by simp
qed

lemma carve_inMaze_mono:
  "carve rnd k st ws = Inr (k', st') \<Longrightarrow> cellInMaze st r c \<Longrightarrow> cellInMaze st' r c"
  by (rule carve_preserves[where Q="\<lambda>st. cellInMaze st r c"]) (auto simp: carveCell_inMaze)

lemma blank_update: "(cl::cell)\<lparr>inMaze := False, visited := False, walls := allWalls\<rparr> = blankCell"
  by (cases cl) (simp add: blankCell_def)

lemma resetRow_ok:
  "(\<forall>c \<in> set cs. cellAt m r c \<noteq> None) \<Longrightarrow>
   \<exists>m'. resetRow keepStart s r cs m = Inr m' \<and> map length m' = map length m \<and>
     (\<forall>r' c'. cellAt m' r' c' =
        (if r' = r \<and> c' \<in> set cs \<and> resetCond keepStart s r c' then Some blankCell
         else cellAt m r' c'))"
proof (induction cs arbitrary: m)
  case Nil
  then show ?case by simp
next
  case (Cons c cs)
  show ?case
  proof (cases "resetCond keepStart s r c")
    case False
    from Cons.prems have "\<forall>c \<in> set cs. cellAt m r c \<noteq> None" by simp
    from Cons.IH[OF this] obtain m' where
      m': "resetRow keepStart s r cs m = Inr m'" "map length m' = map length m"
      "\<forall>r' c'. cellAt m' r' c' =
        (if r' = r \<and> c' \<in> set cs \<and> resetCond keepStart s r c' then Some blankCell
         else cellAt m r' c')" by blast
    from False have "resetRow keepStart s r (c # cs) m = resetRow keepStart s r cs m"
      by (simp add: resetCond_def)
    with m' False show ?thesis by auto
  next
    case True
    from Cons.prems obtain cl where cl: "cellAt m r c = Some cl" by auto
    define m1 where "m1 = setCell m r c blankCell"
    have u: "updCell m r c (\<lambda>cl. cl\<lparr>inMaze := False, visited := False, walls := allWalls\<rparr>) = Inr m1"
      using cl by (simp add: updCell_def blank_update m1_def)
    have sh: "map length m1 = map length m" by (simp add: m1_def shape_setCell)
    have c1: "\<And>r' c'. cellAt m1 r' c' = (if r' = r \<and> c' = c then Some blankCell else cellAt m r' c')"
      using cellAt_setCell[OF cl] by (simp add: m1_def)
    from Cons.prems cellAt_shape[OF sh] have "\<forall>c \<in> set cs. cellAt m1 r c \<noteq> None" by simp
    from Cons.IH[OF this] obtain m' where
      m': "resetRow keepStart s r cs m1 = Inr m'" "map length m' = map length m1"
      "\<forall>r' c'. cellAt m' r' c' =
        (if r' = r \<and> c' \<in> set cs \<and> resetCond keepStart s r c' then Some blankCell
         else cellAt m1 r' c')" by blast
    from True u have "resetRow keepStart s r (c # cs) m = resetRow keepStart s r cs m1"
      by (simp add: resetCond_def)
    with m' sh c1 True show ?thesis by auto
  qed
qed

lemma resetRows_ok:
  "(\<forall>r \<in> set rs. \<forall>c \<in> set cs. cellAt m r c \<noteq> None) \<Longrightarrow>
   \<exists>m'. resetRows keepStart s rs cs m = Inr m' \<and> map length m' = map length m \<and>
     (\<forall>r' c'. cellAt m' r' c' =
        (if r' \<in> set rs \<and> c' \<in> set cs \<and> resetCond keepStart s r' c' then Some blankCell
         else cellAt m r' c'))"
proof (induction rs arbitrary: m)
  case Nil
  then show ?case by simp
next
  case (Cons r rs)
  from Cons.prems have "\<forall>c \<in> set cs. cellAt m r c \<noteq> None" by simp
  from resetRow_ok[OF this, of keepStart s] obtain m1 where
    m1: "resetRow keepStart s r cs m = Inr m1" "map length m1 = map length m"
    "\<forall>r' c'. cellAt m1 r' c' =
        (if r' = r \<and> c' \<in> set cs \<and> resetCond keepStart s r c' then Some blankCell
         else cellAt m r' c')" by blast
  from Cons.prems cellAt_shape[OF m1(2)]
  have "\<forall>r \<in> set rs. \<forall>c \<in> set cs. cellAt m1 r c \<noteq> None" by simp
  from Cons.IH[OF this] obtain m' where
    m': "resetRows keepStart s rs cs m1 = Inr m'" "map length m' = map length m1"
    "\<forall>r' c'. cellAt m' r' c' =
        (if r' \<in> set rs \<and> c' \<in> set cs \<and> resetCond keepStart s r' c' then Some blankCell
         else cellAt m1 r' c')" by blast
  from m1(1) m'(1) have "resetRows keepStart s (r # rs) cs m = Inr m'" by simp
  moreover from m1(2) m'(2) have "map length m' = map length m" by simp
  moreover have "\<forall>r' c'. cellAt m' r' c' =
        (if r' \<in> set (r # rs) \<and> c' \<in> set cs \<and> resetCond keepStart s r' c' then Some blankCell
         else cellAt m r' c')"
    using m1(3) m'(3) by auto
  ultimately show ?case by blast
qed

subsection \<open>Partial regeneration\<close>

lemma selectNewEndPoint_cases:
  "\<exists>b st'. selectNewEndPoint rnd k st = (if b then Inr st' else Inl (TypeError, st')) \<and>
     start st' = start st \<and> maze st' = maze st \<and> rows st' = rows st \<and> cols st' = cols st"
proof (cases "selectNewEndPoint rnd k st")
  case (Inl a)
  obtain e st' where a: "a = (e, st')" by (cases a)
  have "e = TypeError \<and> start st' = start st \<and> maze st' = maze st \<and> rows st' = rows st \<and> cols st' = cols st"
    using Inl a
    by (auto simp: selectNewEndPoint_def getCellElement_def Let_def
        split: option.splits sum.splits if_splits prod.splits)
  with Inl a show ?thesis by (intro exI[of _ False] exI[of _ st']) simp
next
  case (Inr st')
  have "start st' = start st \<and> maze st' = maze st \<and> rows st' = rows st \<and> cols st' = cols st"
    using Inr
    by (auto simp: selectNewEndPoint_def getCellElement_def Let_def
        split: option.splits sum.splits if_splits prod.splits)
  with Inr show ?thesis by (intro exI[of _ True] exI[of _ st']) simp
qed

lemma resetMaze_keepStart:
  assumes wf: "wf_grid st" and s: "start st = Some (sr, sc)" and v: "isValidCell st sr sc"
  shows "\<exists>st1. resetMaze True st = Inr st1 \<and> frame st st1 \<and>
     (\<forall>r c. isValidCell st r c \<and> (r, c) \<noteq> (sr, sc) \<longrightarrow> cellAt (maze st1) r c = Some blankCell) \<and>
     (\<exists>cl. cellAt (maze st) sr sc = Some cl \<and> cellAt (maze st1) sr sc = Some (cl\<lparr>inMaze := True\<rparr>))"
proof -
  have "\<forall>r \<in> set [0..rows st - 1]. \<forall>c \<in> set [0..cols st - 1]. cellAt (maze st) r c \<noteq> None"
    using wf_cellAt[OF wf] by (auto simp: isValidCell_def)
  from resetRows_ok[OF this, of True "start st"] obtain m where
    m: "resetRows True (start st) [0..rows st - 1] [0..cols st - 1] (maze st) = Inr m"
    and sh: "map length m = map length (maze st)"
    and cells: "\<forall>r' c'. cellAt m r' c' =
        (if r' \<in> set [0..rows st - 1] \<and> c' \<in> set [0..cols st - 1] \<and> resetCond True (start st) r' c'
         then Some blankCell else cellAt (maze st) r' c')" by blast
  define sta where "sta = st\<lparr>maze := m\<rparr>"
  have fa: "frame st sta" unfolding sta_def using sh by (rule frame_maze_upd)
  have wfa: "wf_grid sta" using fa wf by (rule frame_wf)
  have va: "isValidCell sta sr sc" using v frame_fields(10)[OF fa] by simp
  from wf_cellAt[OF wf, of sr sc] v obtain cl where cl: "cellAt (maze st) sr sc = Some cl" by auto
  have "\<not> resetCond True (start st) sr sc" by (simp add: resetCond_def s)
  with cells cl have cla: "cellAt (maze sta) sr sc = Some cl" by (simp add: sta_def)
  from markInMaze_ok[OF wfa va] obtain st1 where mk: "markInMaze sta sr sc = Inr st1" by blast
  have f1: "frame sta st1" using mk by (rule markInMaze_frame)
  have v1: "isValidCell st1 sr sc" using va frame_fields(10)[OF f1] by simp
  have r: "resetMaze True st = Inr st1"
    using m mk v1 by (simp add: resetMaze_def s sta_def getCellElement_def)
  from mk have m1: "updCell (maze sta) sr sc (\<lambda>cl. cl\<lparr>inMaze := True\<rparr>) = Inr (maze st1)"
    by (auto simp: markInMaze_def split: sum.splits)
  have c1: "\<And>r c. cellAt (maze st1) r c =
      (if r = sr \<and> c = sc then Some (cl\<lparr>inMaze := True\<rparr>) else cellAt m r c)"
    using cellAt_updCell[OF m1] cla by (simp add: sta_def)
  have "\<forall>r c. isValidCell st r c \<and> (r, c) \<noteq> (sr, sc) \<longrightarrow> cellAt (maze st1) r c = Some blankCell"
    using c1 cells by (auto simp: isValidCell_def resetCond_def s)
  moreover have "cellAt (maze st1) sr sc = Some (cl\<lparr>inMaze := True\<rparr>)" using c1 by simp
  ultimately show ?thesis using r frame_trans[OF fa f1] cl by blast
qed

section \<open>Start and End selection\<close>

lemma randomInt_zero [simp]: "randomInt 0 n = 0"
  by (simp add: randomInt_def)

lemma samplePairs_step:
  "attempt < 1000 \<Longrightarrow>
   samplePairs rnd k st attempt acc =
     samplePairs rnd (k + 4) st (attempt + 1)
       (case samplePair rnd k st 0 of (s, e) \<Rightarrow>
          if s \<noteq> e \<and> manhattan s e > fst acc then (manhattan s e, Some (s, e)) else acc)"
  by (subst samplePairs.simps)
     (auto simp: Let_def samplePair_def manhattan_def getManhattanDistance_def)

lemma samplePairs_done: "\<not> attempt < 1000 \<Longrightarrow> samplePairs rnd k st attempt acc = acc"
  by (subst samplePairs.simps) simp

lemma samplePairs_zero_tail:
  "(\<forall>j \<ge> k. rnd j = 0) \<Longrightarrow> samplePairs rnd k st attempt acc = acc"
proof (induction rnd k st attempt acc rule: samplePairs.induct)
  case (1 rnd k st attempt acc)
  show ?case
  proof (cases "attempt < 1000")
    case True
    from "1.prems" have z: "rnd k = 0" "rnd (k + 1) = 0" "rnd (k + 2) = 0" "rnd (k + 3) = 0"
      by auto
    have "samplePairs rnd k st attempt acc = samplePairs rnd (k + 4) st (attempt + 1) acc"
      using True z by (subst samplePairs.simps) simp
    also have "\<dots> = acc"
      using "1.IH"[OF True refl refl refl refl refl] "1.prems" z by simp
    finally show ?thesis .
  next
    case False
    then show ?thesis by (rule samplePairs_done)
  qed
qed

text \<open>Loop invariant of the sampling loop of selectPoints.\<close>

lemma samplePairs_inv:
  assumes "samplePairs rnd k st attempt acc = (maxD, best)"
    and "case snd acc of None \<Rightarrow> fst acc = 0
         | Some (s, e) \<Rightarrow> s \<noteq> e \<and> manhattan s e = fst acc \<and> 0 < fst acc"
  shows "(case best of None \<Rightarrow> maxD = 0
          | Some (s, e) \<Rightarrow> s \<noteq> e \<and> manhattan s e = maxD \<and> 0 < maxD \<and>
              (Some (s, e) = snd acc \<or>
               (\<exists>a. attempt + a < 1000 \<and> (s, e) = samplePair rnd k st a))) \<and>
         fst acc \<le> maxD \<and>
         (\<forall>a. attempt + a < 1000 \<longrightarrow>
            (case samplePair rnd k st a of (s, e) \<Rightarrow> s \<noteq> e \<longrightarrow> manhattan s e \<le> maxD))"
  using assms
proof (induction "1000 - attempt" arbitrary: attempt k acc)
  case 0
  then have "\<not> attempt < 1000" by simp
  with "0.prems" show ?case
    by (auto simp: samplePairs_done split: option.splits)
next
  case (Suc n)
  then have True: "attempt < 1000" by simp
  show ?case
  proof -
    obtain s0 e0 where p0: "samplePair rnd k st 0 = (s0, e0)" by (cases "samplePair rnd k st 0")
    define acc' where "acc' = (if s0 \<noteq> e0 \<and> manhattan s0 e0 > fst acc then (manhattan s0 e0, Some (s0, e0)) else acc)"
    have step: "samplePairs rnd (k + 4) st (attempt + 1) acc' = (maxD, best)"
      using Suc.prems(1) samplePairs_step[OF True, of rnd k st acc] p0 by (simp add: acc'_def)
    have inv': "case snd acc' of None \<Rightarrow> fst acc' = 0
         | Some (s, e) \<Rightarrow> s \<noteq> e \<and> manhattan s e = fst acc' \<and> 0 < fst acc'"
      using Suc.prems(2) by (auto simp: acc'_def split: option.splits)
    have shift: "\<And>a. samplePair rnd (k + 4) st a = samplePair rnd k st (Suc a)"
      by (simp add: samplePair_def add.assoc add.commute add.left_commute)
    have n: "n = 1000 - (attempt + 1)" using Suc.hyps(2) by simp
    note IH = Suc.hyps(1)[OF n step inv']
    have le: "fst acc \<le> fst acc'" by (simp add: acc'_def)
    have best_ok: "case best of None \<Rightarrow> maxD = 0
          | Some (s, e) \<Rightarrow> s \<noteq> e \<and> manhattan s e = maxD \<and> 0 < maxD \<and>
              (Some (s, e) = snd acc \<or>
               (\<exists>a. attempt + a < 1000 \<and> (s, e) = samplePair rnd k st a))"
    proof (cases best)
      case None
      with IH show ?thesis by simp
    next
      case (Some se)
      obtain s e where se: "se = (s, e)" by (cases se)
      from IH Some se have b: "s \<noteq> e" "manhattan s e = maxD" "0 < maxD"
        and or: "Some (s, e) = snd acc' \<or>
               (\<exists>a. attempt + 1 + a < 1000 \<and> (s, e) = samplePair rnd (k + 4) st a)"
        by auto
      from or have "Some (s, e) = snd acc \<or> (\<exists>a. attempt + a < 1000 \<and> (s, e) = samplePair rnd k st a)"
      proof
        assume "Some (s, e) = snd acc'"
        then have "Some (s, e) = snd acc \<or> (s, e) = samplePair rnd k st 0"
          using p0 by (auto simp: acc'_def split: if_splits)
        with True show ?thesis by (metis add.right_neutral)
      next
        assume "\<exists>a. attempt + 1 + a < 1000 \<and> (s, e) = samplePair rnd (k + 4) st a"
        then obtain a where "attempt + 1 + a < 1000" "(s, e) = samplePair rnd k st (Suc a)"
          using shift by auto
        then have "attempt + Suc a < 1000 \<and> (s, e) = samplePair rnd k st (Suc a)" by simp
        then show ?thesis by blast
      qed
      with b Some se show ?thesis by simp
    qed
    have all: "\<forall>a. attempt + a < 1000 \<longrightarrow>
            (case samplePair rnd k st a of (s, e) \<Rightarrow> s \<noteq> e \<longrightarrow> manhattan s e \<le> maxD)"
    proof (intro allI impI)
      fix a assume a: "attempt + a < 1000"
      show "case samplePair rnd k st a of (s, e) \<Rightarrow> s \<noteq> e \<longrightarrow> manhattan s e \<le> maxD"
      proof (cases a)
        case 0
        have "s0 \<noteq> e0 \<Longrightarrow> manhattan s0 e0 \<le> fst acc'" by (simp add: acc'_def)
        with IH 0 p0 show ?thesis by auto
      next
        case (Suc a')
        with a have "attempt + 1 + a' < 1000" by simp
        with IH shift Suc show ?thesis by auto
      qed
    qed
    from best_ok all le IH show ?thesis by auto
  qed
qed

lemma samplePairs_ties:
  "(\<forall>a. attempt + a < 1000 \<longrightarrow> fst (samplePair rnd k st a) = snd (samplePair rnd k st a)) \<Longrightarrow>
   samplePairs rnd k st attempt acc = acc"
proof (induction "1000 - attempt" arbitrary: attempt k)
  case 0
  then show ?case by (simp add: samplePairs_done)
next
  case (Suc n)
  then have lt: "attempt < 1000" by simp
  have shift: "\<And>a. samplePair rnd (k + 4) st a = samplePair rnd k st (Suc a)"
    by (simp add: samplePair_def add.assoc add.commute add.left_commute)
  from Suc.prems lt have "fst (samplePair rnd k st 0) = snd (samplePair rnd k st 0)"
    by (metis add.right_neutral)
  then have "samplePairs rnd k st attempt acc = samplePairs rnd (k + 4) st (attempt + 1) acc"
    using samplePairs_step[OF lt, of rnd k st acc] by (auto split: prod.splits)
  moreover have "samplePairs rnd (k + 4) st (attempt + 1) acc = acc"
  proof (rule Suc.hyps(1))
    show "n = 1000 - (attempt + 1)" using Suc.hyps(2) by simp
    show "\<forall>a. attempt + 1 + a < 1000 \<longrightarrow>
        fst (samplePair rnd (k + 4) st a) = snd (samplePair rnd (k + 4) st a)"
      using Suc.prems shift by (metis add.assoc plus_1_eq_Suc)
  qed
  ultimately show ?case by simp
qed

lemma clearPoints_Inr:
  "clearPoints st = Inr st0 \<Longrightarrow> st0 = st\<lparr>start := None, end' := None\<rparr>"
  by (auto simp: clearPoints_def split: sum.splits option.splits)

lemma clearPoints_Inl: "clearPoints st = Inl e \<Longrightarrow> e = TypeError"
  by (auto simp: clearPoints_def getCellElement_def split: sum.splits option.splits if_splits)

lemma samplePairs_grid:
  "rows st' = rows st \<Longrightarrow> cols st' = cols st \<Longrightarrow>
   samplePairs rnd k st' attempt acc = samplePairs rnd k st attempt acc"
proof (induction "1000 - attempt" arbitrary: attempt k acc)
  case 0
  then show ?case by (simp add: samplePairs_done)
next
  case (Suc n)
  then have lt: "attempt < 1000" by simp
  have n: "n = 1000 - (attempt + 1)" using Suc.hyps(2) by simp
  have sp: "samplePair rnd k st' 0 = samplePair rnd k st 0"
    using Suc.prems by (simp add: samplePair_def)
  show ?case
    using Suc.hyps(1)[OF n Suc.prems] by (simp add: samplePairs_step[OF lt] sp)
qed

lemma sampleEnd_Some:
  "sampleEnd rnd k st s attempts = Some p \<Longrightarrow> minDistance st \<le> manhattan s p"
proof (induction "100 - attempts" arbitrary: attempts k)
  case 0
  then show ?case by (subst (asm) sampleEnd.simps) simp
next
  case (Suc n)
  then have lt: "attempts < 100" by simp
  have n: "n = 100 - (attempts + 1)" using Suc.hyps(2) by simp
  from Suc.prems lt show ?case
    using Suc.hyps(1)[OF n, of "k + 2"]
    by (subst (asm) sampleEnd.simps) (auto simp: Let_def manhattan_def split: if_splits)
qed

lemma sampleEnd_zero_tail:
  "(\<forall>j \<ge> k. rnd j = 0) \<Longrightarrow> manhattan s (0, 0) < minDistance st \<Longrightarrow>
   sampleEnd rnd k st s attempts = None"
proof (induction "100 - attempts" arbitrary: attempts k)
  case 0
  then show ?case by (subst sampleEnd.simps) simp
next
  case (Suc n)
  then have lt: "attempts < 100" by simp
  have n: "n = 100 - (attempts + 1)" using Suc.hyps(2) by simp
  from Suc.prems have z: "rnd k = 0" "rnd (k + 1) = 0" by auto
  have "sampleEnd rnd (k + 2) st s (attempts + 1) = None"
    using Suc.hyps(1)[OF n] Suc.prems by simp
  with lt z Suc.prems(2) show ?case
    by (subst sampleEnd.simps) (simp add: Let_def manhattan_def)
qed

lemma cornerLoop_inv:
  assumes "cornerLoop r c cs (m, b) = (m', b')" "m \<le> manhattan (r, c) b"
  shows "m' \<le> manhattan (r, c) b' \<and> m \<le> m' \<and> (\<forall>q \<in> set cs. manhattan (r, c) q \<le> m') \<and>
         b' \<in> insert b (set cs)"
  using assms
proof (induction cs arbitrary: m b)
  case Nil
  then show ?case by simp
next
  case (Cons q cs)
  obtain row col where q: "q = (row, col)" by (cases q)
  define acc where "acc = (if manhattan (r, c) q > m then (manhattan (r, c) q, q) else (m, b))"
  have step: "cornerLoop r c cs (fst acc, snd acc) = (m', b')"
    using Cons.prems(1) by (auto simp: q acc_def Let_def manhattan_def split: if_splits)
  have "fst acc \<le> manhattan (r, c) (snd acc)" using Cons.prems(2) by (simp add: acc_def)
  from Cons.IH[OF step this]
  have "m' \<le> manhattan (r, c) b'" "fst acc \<le> m'" "\<forall>q \<in> set cs. manhattan (r, c) q \<le> m'"
    "b' \<in> insert (snd acc) (set cs)" by auto
  moreover have "m \<le> fst acc" "manhattan (r, c) q \<le> fst acc" "snd acc = b \<or> snd acc = q"
    by (auto simp: acc_def)
  ultimately show ?case by auto
qed

lemma farthestCorner_max:
  "farthestCorner st r c \<in> set (corners st) \<and>
   (\<forall>q \<in> set (corners st). manhattan (r, c) q \<le> manhattan (r, c) (farthestCorner st r c))"
proof -
  obtain m' b' where cl: "cornerLoop r c (corners st) (0, hd (corners st)) = (m', b')"
    by (cases "cornerLoop r c (corners st) (0, hd (corners st))")
  have "0 \<le> manhattan (r, c) (hd (corners st))" by (simp add: manhattan_def getManhattanDistance_def)
  from cornerLoop_inv[OF cl this] have "m' \<le> manhattan (r, c) b'"
    "\<forall>q \<in> set (corners st). manhattan (r, c) q \<le> m'" "b' \<in> insert (hd (corners st)) (set (corners st))"
    by auto
  moreover have "hd (corners st) \<in> set (corners st)" by (simp add: corners_def)
  ultimately show ?thesis using cl by (fastforce simp: farthestCorner_def)
qed

lemma selectNewEndPoint_distance:
  assumes "start st = Some s" "selectNewEndPoint rnd k st = Inr st'"
  shows "\<exists>e. end' st' = Some e \<and> start st' = Some s \<and>
     (minDistance st \<le> manhattan s e \<or>
      (sampleEnd rnd k st s 0 = None \<and> e \<in> set (corners st) \<and>
       (\<forall>q \<in> set (corners st). manhattan s q \<le> manhattan s e)))"
proof -
  obtain sr sc where s: "s = (sr, sc)" by (cases s)
  define p where "p = (case sampleEnd rnd k st (sr, sc) 0 of Some p \<Rightarrow> p
                         | None \<Rightarrow> farthestCorner st sr sc)"
  from assms have st': "st' = st\<lparr>end' := Some p\<rparr>"
    by (auto simp: selectNewEndPoint_def s Let_def p_def split: sum.splits option.splits)
  show ?thesis
  proof (cases "sampleEnd rnd k st (sr, sc) 0")
    case None
    then have "p = farthestCorner st sr sc" by (simp add: p_def)
    with farthestCorner_max[of st sr sc] None st' assms(1) s show ?thesis by simp
  next
    case (Some q)
    then have "p = q" by (simp add: p_def)
    with sampleEnd_Some[OF Some] st' assms(1) s show ?thesis by simp
  qed
qed

lemma selectPoints_best:
  assumes "selectPoints rnd k st = Inr st'"
  shows "\<exists>s e a. start st' = Some s \<and> end' st' = Some e \<and> s \<noteq> e \<and> a < 1000 \<and>
      (s, e) = samplePair rnd k st a \<and>
      (\<forall>b < 1000. case samplePair rnd k st b of (s', e') \<Rightarrow> s' \<noteq> e' \<longrightarrow> manhattan s' e' \<le> manhattan s e)"
proof -
  from assms obtain st0 where c: "clearPoints st = Inr st0"
    by (auto simp: selectPoints_def split: sum.splits)
  from clearPoints_Inr[OF c] have rc: "rows st0 = rows st" "cols st0 = cols st" by simp_all
  obtain maxD best where sp0: "samplePairs rnd k st0 0 (0, None) = (maxD, best)"
    by (cases "samplePairs rnd k st0 0 (0, None)")
  with samplePairs_grid[OF rc] have sp: "samplePairs rnd k st 0 (0, None) = (maxD, best)" by simp
  from assms c sp0 obtain s e where best: "best = Some (s, e)"
    by (auto simp: selectPoints_def split: option.splits)
  from samplePairs_inv[OF sp] best
  have inv: "s \<noteq> e" "manhattan s e = maxD" "0 < maxD"
    "\<exists>a. a < 1000 \<and> (s, e) = samplePair rnd k st a"
    "\<forall>a. a < 1000 \<longrightarrow> (case samplePair rnd k st a of (s', e') \<Rightarrow> s' \<noteq> e' \<longrightarrow> manhattan s' e' \<le> maxD)"
    by auto
  from assms c sp0 best inv(3) have "start st' = Some s \<and> end' st' = Some e"
    by (auto simp: selectPoints_def Let_def split: sum.splits prod.splits)
  with inv show ?thesis by blast
qed

lemma rnd_ge: "\<forall>j \<ge> length xs. rndOf xs j = 0"
  by (simp add: rndOf_def)

lemma samplePair_1x1:
  assumes "unit_rnd rnd" "rows st = 1" "cols st = 1"
  shows "samplePair rnd k st a = ((0, 0), (0, 0))"
proof -
  have "randomInt (rnd j) 1 = 0" for j
  proof -
    from assms(1) have "0 \<le> rnd j" "rnd j < 1" by (simp_all add: unit_rnd_def)
    from randomInt_range[OF this, of 1] show ?thesis by simp
  qed
  then show ?thesis by (simp add: samplePair_def assms)
qed

section \<open>Two concrete runs of the generator\<close>

lemma list_update_Cons_numeral [simp]:
  "(x # xs)[numeral n := y] = x # xs[pred_numeral n := y]"
  by (simp add: numeral_eq_Suc)

lemma newGrid33: "newGrid 3 3 = \<lparr>rows = 3, cols = 3,
     maze = [[blankCell, blankCell, blankCell], [blankCell, blankCell, blankCell], [blankCell, blankCell, blankCell]],
     start = None, end' = None, minDistance = 12, isGenerating = False, isSolving = False,
     solving = False, warnings = []\<rparr>"
  by (simp add: newGrid_def eval_nat_numeral)

lemmas eval_defs = isValidCell_def cellAt_def blankCell_def allWalls_def targetFree_def
  carveCell_def removeWall_def markInMaze_def addWalls_def updCell_def setCell_def Let_def
  carved_def getCellElement_def

lemma cycle_reset:
  "resetMaze False ((newGrid 3 3)\<lparr>isGenerating := True\<rparr>) = Inr ((newGrid 3 3)\<lparr>isGenerating := True\<rparr>)"
  by (simp add: resetMaze_def newGrid33 upto.simps eval_defs)

lemma cycle_frontier:
  "addWalls ((newGrid 3 3)\<lparr>isGenerating := True\<rparr>) 1 1 []
     = Inr [(1, 1, Top), (1, 1, Right), (1, 1, Bottom), (1, 1, Left)]"
  by (simp add: newGrid33 eval_defs)

lemma cycle_carve:
  "carve cycleOracle 2 ((newGrid 3 3)\<lparr>isGenerating := True\<rparr>)
      [(1, 1, Top), (1, 1, Right), (1, 1, Bottom), (1, 1, Left)]
   = Inr (18, cyclicMaze\<lparr>start := None, end' := None\<rparr>)"
  by (simp add: carve.simps cycleOracle_def rndOf_def randomInt_def newGrid33 cyclicMaze_def eval_defs)

lemma cycle_select:
  "selectPoints cycleOracle 18 (cyclicMaze\<lparr>start := None, end' := None\<rparr>) = Inr cyclicMaze"
proof -
  let ?st = "cyclicMaze\<lparr>start := None, end' := None\<rparr>"
  have c: "clearPoints ?st = Inr ?st" by (simp add: clearPoints_def)
  have p0: "samplePair cycleOracle 18 ?st 0 = ((0, 0), (0, 1))"
    by (simp add: samplePair_def cycleOracle_def rndOf_def cyclicMaze_def randomInt_def)
  have tail: "\<forall>j \<ge> 18 + 4. cycleOracle j = 0"
    unfolding cycleOracle_def by (rule allI, rule impI, rule rnd_ge[rule_format]) simp
  have "samplePairs cycleOracle 18 ?st 0 (0, None)
      = samplePairs cycleOracle (18 + 4) ?st (0 + 1) (1, Some ((0, 0), (0, 1)))"
    by (subst samplePairs_step) (simp_all add: p0 manhattan_def getManhattanDistance_def)
  also have "\<dots> = (1, Some ((0, 0), (0, 1)))"
    by (rule samplePairs_zero_tail[OF tail])
  finally have sp: "samplePairs cycleOracle 18 ?st 0 (0, None) = (1, Some ((0, 0), (0, 1)))" .
  show ?thesis
    using c sp by (simp add: selectPoints_def Let_def getCellElement_def isValidCell_def cyclicMaze_def)
qed

lemma regen_reset:
  "resetMaze True (cyclicMaze\<lparr>start := Some (0, 1)\<rparr>)
     = Inr (cyclicMaze\<lparr>start := Some (0, 1),
              maze := [[blankCell, carved True False False False, blankCell],
                       [blankCell, blankCell, blankCell],
                       [blankCell, blankCell, blankCell]]\<rparr>)"
  by (simp add: resetMaze_def cyclicMaze_def upto.simps eval_defs)

lemma regen_frontier:
  "addWalls (cyclicMaze\<lparr>start := Some (0, 1),
              maze := [[blankCell, carved True False False False, blankCell],
                       [blankCell, blankCell, blankCell],
                       [blankCell, blankCell, blankCell]]\<rparr>) 0 1 []
     = Inr [(0, 1, Right), (0, 1, Bottom), (0, 1, Left)]"
  by (simp add: cyclicMaze_def eval_defs)

lemma regen_carve:
  "carve regenOracle 0
     (cyclicMaze\<lparr>start := Some (0, 1),
              maze := [[blankCell, carved True False False False, blankCell],
                       [blankCell, blankCell, blankCell],
                       [blankCell, blankCell, blankCell]]\<rparr>)
     [(0, 1, Right), (0, 1, Bottom), (0, 1, Left)]
   = Inr (12, asymMaze\<lparr>end' := Some (0, 1)\<rparr>)"
  by (simp add: carve.simps regenOracle_def rndOf_def randomInt_def cyclicMaze_def asymMaze_def eval_defs)

lemma regen_select:
  "selectNewEndPoint regenOracle 12 (asymMaze\<lparr>end' := Some (0, 1)\<rparr>) = Inr asymMaze"
proof -
  let ?st = "asymMaze\<lparr>end' := Some (0, 1)\<rparr>"
  have tail: "\<forall>j \<ge> 12. regenOracle j = 0"
    unfolding regenOracle_def by (rule allI, rule impI, rule rnd_ge[rule_format]) simp
  have "manhattan (0, 1) (0, 0) < minDistance ?st"
    by (simp add: manhattan_def getManhattanDistance_def asymMaze_def)
  with tail have se: "sampleEnd regenOracle 12 ?st (0, 1) 0 = None"
    by (rule sampleEnd_zero_tail)
  have fc: "farthestCorner ?st 0 1 = (2, 0)"
    by (simp add: farthestCorner_def corners_def asymMaze_def Let_def getManhattanDistance_def)
  show ?thesis
    using se fc
    by (simp add: selectNewEndPoint_def Let_def getCellElement_def isValidCell_def asymMaze_def)
qed

section \<open>PriorityQueue: the heap invariant\<close>

lemma parent_less: "0 < i \<Longrightarrow> parent i < i"
  unfolding parent_def by arith

lemma parent_child: "0 < i \<Longrightarrow> parent i = k \<longleftrightarrow> i = 2 * k + 1 \<or> i = 2 * k + 2"
  unfolding parent_def by arith

lemma bubbleUpFrom_unfold:
  "bubbleUpFrom vs idx =
     (if idx > 0
      then (if priority (vs ! parent idx) \<le> priority (vs ! idx) then vs
            else bubbleUpFrom (vs[parent idx := vs ! idx, idx := vs ! parent idx]) (parent idx))
      else vs)"
  by (subst bubbleUpFrom.simps) (simp add: Let_def parent_def)

lemma swap_nth:
  "i < length vs \<Longrightarrow> j < length vs \<Longrightarrow> n < length vs \<Longrightarrow>
   (vs[i := vs ! j, j := vs ! i]) ! n = (if n = j then vs ! i else if n = i then vs ! j else vs ! n)"
  by (simp add: nth_list_update)

lemma bubbleUpFrom_heap:
  "idx < length vs \<Longrightarrow> heap_but_up vs idx \<Longrightarrow> is_heap (bubbleUpFrom vs idx)"
proof (induction idx arbitrary: vs rule: less_induct)
  case (less idx)
  show ?case
  proof (cases "0 < idx")
    case False
    then have "bubbleUpFrom vs idx = vs" by (subst bubbleUpFrom_unfold) simp
    moreover from False less.prems(2) have "is_heap vs"
      by (auto simp: heap_but_up_def is_heap_def)
    ultimately show ?thesis by simp
  next
    case True
    define p where "p = parent idx"
    have pl: "p < idx" using True by (simp add: p_def parent_less)
    show ?thesis
    proof (cases "priority (vs ! p) \<le> priority (vs ! idx)")
      case le: True
      then have "bubbleUpFrom vs idx = vs"
        using True by (subst bubbleUpFrom_unfold) (simp add: p_def)
      moreover have "is_heap vs"
        unfolding is_heap_def
      proof (intro allI impI)
        fix i assume "i < length vs" "0 < i"
        then show "priority (vs ! parent i) \<le> priority (vs ! i)"
          using less.prems(2) le by (cases "i = idx") (auto simp: heap_but_up_def p_def)
      qed
      ultimately show ?thesis by simp
    next
      case gt: False
      define vs' where "vs' = vs[p := vs ! idx, idx := vs ! p]"
      have unf: "bubbleUpFrom vs idx = bubbleUpFrom vs' p"
        using True gt by (subst bubbleUpFrom_unfold) (simp add: p_def vs'_def)
      have len: "length vs' = length vs" by (simp add: vs'_def)
      have pv: "p < length vs" using pl less.prems(1) by simp
      have nth': "\<And>n. n < length vs \<Longrightarrow>
          vs' ! n = (if n = idx then vs ! p else if n = p then vs ! idx else vs ! n)"
        unfolding vs'_def using swap_nth[OF pv less.prems(1)] by simp
      from less.prems(2) have A: "\<And>i. i < length vs \<Longrightarrow> 0 < i \<Longrightarrow> i \<noteq> idx \<Longrightarrow>
            priority (vs ! parent i) \<le> priority (vs ! i)"
        and B: "\<And>i. i < length vs \<Longrightarrow> 0 < i \<Longrightarrow> parent i = idx \<Longrightarrow>
            priority (vs ! p) \<le> priority (vs ! i)"
        using True by (auto simp: heap_but_up_def p_def)
      from gt have lt: "priority (vs ! idx) < priority (vs ! p)" by simp
      have "heap_but_up vs' p"
        unfolding heap_but_up_def len
      proof (intro conjI allI impI)
        fix i assume i: "i < length vs" "0 < i" "i \<noteq> p"
        have pi: "parent i < length vs" using parent_less[OF i(2)] i(1) by simp
        show "priority (vs' ! parent i) \<le> priority (vs' ! i)"
        proof (cases "i = idx")
          case True
          then show ?thesis using lt nth'[OF pv] nth'[OF less.prems(1)] pl by (simp add: p_def)
        next
          case False
          have vi: "vs' ! i = vs ! i" using nth'[OF i(1)] False i(3) by simp
          consider "parent i = p" | "parent i = idx" | "parent i \<noteq> p" "parent i \<noteq> idx" by blast
          then show ?thesis
          proof cases
            case 1
            then have "vs' ! parent i = vs ! idx" using nth'[OF pv] pl by simp
            moreover have "priority (vs ! p) \<le> priority (vs ! i)" using A[OF i(1,2) False] 1 by simp
            ultimately show ?thesis using lt vi by simp
          next
            case 2
            then have "vs' ! parent i = vs ! p" using nth'[OF less.prems(1)] by simp
            with B[OF i(1,2) 2] vi show ?thesis by simp
          next
            case 3
            then have "vs' ! parent i = vs ! parent i" using nth'[OF pi] by simp
            with A[OF i(1,2) False] vi show ?thesis by simp
          qed
        qed
      next
        fix i assume i: "i < length vs" "0 < i" "parent i = p" "0 < p"
        have ppl: "parent p < p" using parent_less[OF i(4)] .
        have pp: "vs' ! parent p = vs ! parent p"
          using nth'[of "parent p"] ppl pl pv by simp
        have ip: "i \<noteq> p" using parent_less[OF i(2)] i(3) by simp
        have pidx: "p \<noteq> idx" using pl by simp
        have 1: "priority (vs ! parent p) \<le> priority (vs ! p)" using A[OF pv i(4) pidx] .
        show "priority (vs' ! parent p) \<le> priority (vs' ! i)"
        proof (cases "i = idx")
          case True
          then show ?thesis using nth'[OF less.prems(1)] pp 1 by simp
        next
          case False
          then have "vs' ! i = vs ! i" using nth'[OF i(1)] ip by simp
          moreover have "priority (vs ! p) \<le> priority (vs ! i)" using A[OF i(1,2) False] i(3) by simp
          ultimately show ?thesis using pp 1 by simp
        qed
      qed
      from less.IH[OF pl _ this] pv len unf
      show ?thesis by simp
    qed
  qed
qed

lemma bubbleUpFrom_mset: "idx < length vs \<Longrightarrow> mset (bubbleUpFrom vs idx) = mset vs"
proof (induction idx arbitrary: vs rule: less_induct)
  case (less idx)
  show ?case
  proof (cases "0 < idx \<and> \<not> priority (vs ! parent idx) \<le> priority (vs ! idx)")
    case False
    then show ?thesis by (subst bubbleUpFrom_unfold) auto
  next
    case True
    then have pl: "parent idx < idx" by (simp add: parent_less)
    with less.prems have pv: "parent idx < length vs" by simp
    have "bubbleUpFrom vs idx
        = bubbleUpFrom (vs[parent idx := vs ! idx, idx := vs ! parent idx]) (parent idx)"
      using True by (subst bubbleUpFrom_unfold) simp
    also have "mset \<dots> = mset (vs[parent idx := vs ! idx, idx := vs ! parent idx])"
      using less.IH[OF pl] pv by simp
    also have "\<dots> = mset vs" using less.prems pv by (simp add: mset_swap)
    finally show ?thesis .
  qed
qed

lemma pickSwap_None:
  assumes "pickSwap vs k = None" "i < length vs" "0 < i" "parent i = k"
  shows "priority (vs ! k) \<le> priority (vs ! i)"
proof -
  from assms(3,4) have "i = 2 * k + 1 \<or> i = 2 * k + 2" by (simp add: parent_child)
  with assms(1,2) show ?thesis
    by (auto simp: pickSwap_def Let_def split: if_splits)
qed

lemma pickSwap_Some:
  assumes "pickSwap vs k = Some s"
  shows "k < s" "s < length vs" "parent s = k" "priority (vs ! s) < priority (vs ! k)"
    "\<And>i. i < length vs \<Longrightarrow> 0 < i \<Longrightarrow> parent i = k \<Longrightarrow> priority (vs ! s) \<le> priority (vs ! i)"
proof -
  from assms have s: "s = 2 * k + 1 \<or> s = 2 * k + 2"
    by (auto simp: pickSwap_def Let_def split: if_splits)
  from pickSwap_bounds[OF assms] show "k < s" "s < length vs" by simp_all
  from s show "parent s = k" by (auto simp: parent_child)
  from assms show "priority (vs ! s) < priority (vs ! k)"
    by (auto simp: pickSwap_def Let_def split: if_splits)
  fix i assume i: "i < length vs" "0 < i" "parent i = k"
  then have "i = 2 * k + 1 \<or> i = 2 * k + 2" by (simp add: parent_child)
  with assms i(1) show "priority (vs ! s) \<le> priority (vs ! i)"
    by (auto simp: pickSwap_def Let_def split: if_splits)
qed

lemma sinkDown_unfold:
  "sinkDown vs k =
     (case pickSwap vs k of None \<Rightarrow> vs
      | Some s \<Rightarrow> sinkDown (vs[k := vs ! s, s := vs ! k]) s)"
  by (subst sinkDown.simps) simp

lemma sinkDown_heap: "heap_but_down vs k \<Longrightarrow> is_heap (sinkDown vs k)"
proof (induction "length vs - k" arbitrary: vs k rule: less_induct)
  case less
  from less.prems have A: "\<And>i. i < length vs \<Longrightarrow> 0 < i \<Longrightarrow> parent i \<noteq> k \<Longrightarrow>
            priority (vs ! parent i) \<le> priority (vs ! i)"
    and B: "\<And>i. i < length vs \<Longrightarrow> 0 < i \<Longrightarrow> parent i = k \<Longrightarrow> 0 < k \<Longrightarrow>
            priority (vs ! parent k) \<le> priority (vs ! i)"
    by (auto simp: heap_but_down_def)
  show ?case
  proof (cases "pickSwap vs k")
    case None
    then have "sinkDown vs k = vs" by (subst sinkDown_unfold) simp
    moreover have "is_heap vs"
      unfolding is_heap_def
    proof (intro allI impI)
      fix i assume i: "i < length vs" "0 < i"
      show "priority (vs ! parent i) \<le> priority (vs ! i)"
      proof (cases "parent i = k")
        case True
        with pickSwap_None[OF None i True] show ?thesis by simp
      next
        case False
        then show ?thesis using A[OF i] by simp
      qed
    qed
    ultimately show ?thesis by simp
  next
    case (Some s)
    note ps = pickSwap_Some[OF Some]
    define vs' where "vs' = vs[k := vs ! s, s := vs ! k]"
    have len: "length vs' = length vs" by (simp add: vs'_def)
    have kv: "k < length vs" using ps(1,2) by simp
    have nth': "\<And>n. n < length vs \<Longrightarrow>
          vs' ! n = (if n = s then vs ! k else if n = k then vs ! s else vs ! n)"
      unfolding vs'_def using swap_nth[OF kv ps(2)] by simp
    have unf: "sinkDown vs k = sinkDown vs' s"
      using Some by (subst sinkDown_unfold) (simp add: vs'_def)
    have "heap_but_down vs' s"
      unfolding heap_but_down_def len
    proof (intro conjI allI impI)
      fix i assume i: "i < length vs" "0 < i" "parent i \<noteq> s"
      have pil: "parent i < i" using parent_less[OF i(2)] .
      have pi: "parent i < length vs" using pil i(1) by simp
      show "priority (vs' ! parent i) \<le> priority (vs' ! i)"
      proof (cases "parent i = k")
        case True
        then have pk: "vs' ! parent i = vs ! s" using nth'[OF kv] ps(1) by simp
        show ?thesis
        proof (cases "i = s")
          case True
          then show ?thesis using pk nth'[OF ps(2)] ps(4) by simp
        next
          case False
          moreover have "i \<noteq> k" using pil True by simp
          ultimately have "vs' ! i = vs ! i" using nth'[OF i(1)] by simp
          with pk ps(5)[OF i(1,2) True] show ?thesis by simp
        qed
      next
        case False
        then have pp: "vs' ! parent i = vs ! parent i" using nth'[OF pi] i(3) by simp
        have ins: "i \<noteq> s" using False ps(3) by auto
        show ?thesis
        proof (cases "i = k")
          case True
          then have "vs' ! i = vs ! s" using nth'[OF kv] ps(1) by simp
          moreover have "priority (vs ! parent k) \<le> priority (vs ! s)"
            using B[OF ps(2) _ ps(3)] ps(1) i(2) True by simp
          ultimately show ?thesis using pp True by simp
        next
          case nk: False
          then have "vs' ! i = vs ! i" using nth'[OF i(1)] ins by simp
          with pp A[OF i(1,2) False] show ?thesis by simp
        qed
      qed
    next
      fix i assume i: "i < length vs" "0 < i" "parent i = s" "0 < s"
      have "s < i" using parent_less[OF i(2)] i(3) by simp
      with ps(1) have "i \<noteq> s" "i \<noteq> k" by simp_all
      then have "vs' ! i = vs ! i" using nth'[OF i(1)] by simp
      moreover have "vs' ! parent s = vs ! s" using nth'[OF kv] ps(1,3) by simp
      moreover have "priority (vs ! s) \<le> priority (vs ! i)"
        using A[OF i(1,2)] i(3) ps(1) by simp
      ultimately show "priority (vs' ! parent s) \<le> priority (vs' ! i)" by simp
    qed
    moreover have "length vs' - s < length vs - k" using ps(1,2) len by simp
    ultimately have "is_heap (sinkDown vs' s)" by (rule less.hyps[rotated])
    with unf show ?thesis by simp
  qed
qed

lemma sinkDown_mset: "mset (sinkDown vs k) = mset vs"
proof (induction "length vs - k" arbitrary: vs k rule: less_induct)
  case less
  show ?case
  proof (cases "pickSwap vs k")
    case None
    then show ?thesis by (subst sinkDown_unfold) simp
  next
    case (Some s)
    note ps = pickSwap_Some[OF Some]
    have kv: "k < length vs" using ps(1,2) by simp
    have "sinkDown vs k = sinkDown (vs[k := vs ! s, s := vs ! k]) s"
      using Some by (subst sinkDown_unfold) simp
    also have "mset \<dots> = mset (vs[k := vs ! s, s := vs ! k])"
      using ps(1,2) by (intro less.hyps) simp
    also have "\<dots> = mset vs" using kv ps(2) by (simp add: mset_swap)
    finally show ?thesis .
  qed
qed

lemma heap_root_min:
  "is_heap vs \<Longrightarrow> i < length vs \<Longrightarrow> priority (vs ! 0) \<le> priority (vs ! i)"
proof (induction i rule: less_induct)
  case (less i)
  show ?case
  proof (cases "0 < i")
    case False
    then show ?thesis by simp
  next
    case True
    from parent_less[OF True] less.prems(2) have "parent i < length vs" by simp
    from less.IH[OF parent_less[OF True] less.prems(1) this]
    have "priority (vs ! 0) \<le> priority (vs ! parent i)" .
    also have "\<dots> \<le> priority (vs ! i)"
      using less.prems True by (simp add: is_heap_def)
    finally show ?thesis .
  qed
qed

lemma enqueue_heap: "is_heap vs \<Longrightarrow> is_heap (enqueue vs v p)"
proof -
  assume h: "is_heap vs"
  let ?e = "\<lparr>val = v, priority = p\<rparr>"
  have "heap_but_up (vs @ [?e]) (length vs)"
    unfolding heap_but_up_def
  proof (intro conjI allI impI)
    fix i assume i: "i < length (vs @ [?e])" "0 < i" "i \<noteq> length vs"
    then have il: "i < length vs" by simp
    with parent_less[OF i(2)] have "parent i < length vs" by simp
    with il h i(2) show "priority ((vs @ [?e]) ! parent i) \<le> priority ((vs @ [?e]) ! i)"
      by (simp add: nth_append is_heap_def)
  next
    fix i assume i: "i < length (vs @ [?e])" "0 < i" "parent i = length vs"
    with parent_less[OF i(2)] have False by simp
    then show "priority ((vs @ [?e]) ! parent (length vs)) \<le> priority ((vs @ [?e]) ! i)" ..
  qed
  then show ?thesis
    unfolding enqueue_def bubbleUp_def by (intro bubbleUpFrom_heap) simp_all
qed

lemma enqueue_mset: "mset (enqueue vs v p) = add_mset \<lparr>val = v, priority = p\<rparr> (mset vs)"
  unfolding enqueue_def bubbleUp_def by (subst bubbleUpFrom_mset) simp_all

lemma dequeue_Nil: "dequeue [] = (None, [])"
  by (simp add: dequeue_def)

lemma dequeue_fst: "vs \<noteq> [] \<Longrightarrow> fst (dequeue vs) = Some (val (vs ! 0))"
  by (cases vs) (simp_all add: dequeue_def Let_def)

lemma dequeue_mset: "vs \<noteq> [] \<Longrightarrow> mset (snd (dequeue vs)) = mset vs - {#vs ! 0#}"
proof (cases vs)
  case Nil
  assume "vs \<noteq> []" with Nil show ?thesis by simp
next
  case (Cons x rest)
  show ?thesis
  proof (cases "rest = []")
    case True
    with Cons show ?thesis by (simp add: dequeue_def Let_def)
  next
    case False
    then have "snd (dequeue vs) = sinkDown ((butlast vs)[0 := last vs]) 0"
      using Cons by (simp add: dequeue_def Let_def)
    moreover have "(butlast vs)[0 := last vs] = last rest # butlast rest"
      using Cons False by simp
    moreover have "mset (last rest # butlast rest) = mset rest"
      using False by (metis append_butlast_last_id mset.simps(2) union_mset_add_mset_right
          add.right_neutral mset_append mset.simps(1))
    ultimately show ?thesis using Cons by (simp add: sinkDown_mset)
  qed
qed

lemma dequeue_heap: "is_heap vs \<Longrightarrow> is_heap (snd (dequeue vs))"
proof (cases vs)
  case Nil
  then show ?thesis by (simp add: dequeue_def is_heap_def)
next
  case (Cons x rest)
  assume h: "is_heap vs"
  show ?thesis
  proof (cases "rest = []")
    case True
    with Cons show ?thesis by (simp add: dequeue_def Let_def is_heap_def)
  next
    case False
    define vs1 where "vs1 = (butlast vs)[0 := last vs]"
    have eq: "snd (dequeue vs) = sinkDown vs1 0"
      using Cons False by (simp add: dequeue_def Let_def vs1_def)
    have len: "length vs1 = length vs - 1" by (simp add: vs1_def)
    have nth1: "\<And>n. 0 < n \<Longrightarrow> n < length vs1 \<Longrightarrow> vs1 ! n = vs ! n"
      by (simp add: vs1_def nth_butlast)
    have "heap_but_down vs1 0"
      unfolding heap_but_down_def
    proof (intro conjI allI impI)
      fix i assume i: "i < length vs1" "0 < i" "parent i \<noteq> 0"
      then have "0 < parent i" "parent i < length vs1" using parent_less[OF i(2)] by simp_all
      with nth1 i have "vs1 ! parent i = vs ! parent i" "vs1 ! i = vs ! i" by simp_all
      moreover have "i < length vs" using i(1) len by simp
      ultimately show "priority (vs1 ! parent i) \<le> priority (vs1 ! i)"
        using h i(2) by (simp add: is_heap_def)
    next
      fix i :: nat assume "(0::nat) < 0"
      then show "priority (vs1 ! parent 0) \<le> priority (vs1 ! i)" by simp
    qed
    then show ?thesis unfolding eq by (rule sinkDown_heap)
  qed
qed

lemma applyOp_heap: "is_heap vs \<Longrightarrow> is_heap (applyOp vs opn)"
  by (cases opn) (simp_all add: enqueue_heap dequeue_heap)

lemma run_heap: "is_heap vs \<Longrightarrow> is_heap (foldl applyOp vs ops)"
  by (induction ops arbitrary: vs) (simp_all add: applyOp_heap)

lemma exampleOps_run:
  "foldl applyOp [] exampleOps
     = [\<lparr>val = ''b'', priority = 3\<rparr>, \<lparr>val = ''a'', priority = 5\<rparr>, \<lparr>val = ''c'', priority = 4\<rparr>]"
  by code_simp

section \<open>The solver\<close>

subsection \<open>Queue operations on keys\<close>

lemma enqueue_keys: "val ` set (enqueue vs v p) = insert v (val ` set vs)"
proof -
  have "set_mset (mset (enqueue vs v p)) = insert \<lparr>val = v, priority = p\<rparr> (set vs)"
    by (simp add: enqueue_mset)
  then have "set (enqueue vs v p) = insert \<lparr>val = v, priority = p\<rparr> (set vs)" by simp
  then show ?thesis by simp
qed

lemma enqueue_distinct:
  "distinct (map val vs) \<Longrightarrow> v \<notin> val ` set vs \<Longrightarrow> distinct (map val (enqueue vs v p))"
proof -
  assume d: "distinct (map val vs)" and n: "v \<notin> val ` set vs"
  have "mset (map val (enqueue vs v p)) = mset (map val (vs @ [\<lparr>val = v, priority = p\<rparr>]))"
    by (simp add: enqueue_mset)
  then have "distinct (map val (enqueue vs v p)) = distinct (map val (vs @ [\<lparr>val = v, priority = p\<rparr>]))"
    by (rule mset_eq_imp_distinct_iff)
  with d n show ?thesis by simp
qed

lemma dequeue_keys:
  assumes "vs \<noteq> []" "distinct (map val vs)" "dequeue vs = (r, rest)"
  shows "r = Some (val (vs ! 0))" "val (vs ! 0) \<in> val ` set vs"
    "val ` set rest = val ` set vs - {val (vs ! 0)}" "distinct (map val rest)"
proof -
  from assms(3) dequeue_fst[OF assms(1)] show "r = Some (val (vs ! 0))" by simp
  from assms(1) show "val (vs ! 0) \<in> val ` set vs" by simp
  from assms(2) have dv: "distinct vs" and inj: "inj_on val (set vs)"
    by (simp_all add: distinct_map)
  from assms(3) dequeue_mset[OF assms(1)] have mr: "mset rest = mset (remove1 (vs ! 0) vs)"
    by simp
  then have "set rest = set (remove1 (vs ! 0) vs)" by (rule mset_eq_setD)
  with dv have sr: "set rest = set vs - {vs ! 0}" by simp
  have "val ` (set vs - {vs ! 0}) = val ` set vs - val ` {vs ! 0}"
    using assms(1) by (intro inj_on_image_set_diff[OF inj]) auto
  with sr show "val ` set rest = val ` set vs - {val (vs ! 0)}" by simp
  have "distinct (map val (remove1 (vs ! 0) vs))"
    using dv inj by (auto simp: distinct_map intro: inj_on_subset)
  moreover have "mset (map val rest) = mset (map val (remove1 (vs ! 0) vs))"
    using mr by (metis mset_map)
  ultimately show "distinct (map val rest)"
    by (metis mset_eq_imp_distinct_iff)
qed

lemma contains_keys: "contains vs v \<longleftrightarrow> v \<in> val ` set vs"
  by (auto simp: contains_def list_ex_iff)

lemma isEmpty_Nil: "isEmpty vs \<longleftrightarrow> vs = []"
  by (simp add: isEmpty_def)

subsection \<open>reconstructPath follows a chain\<close>

lemma reconstructPath_chain_aux:
  "successively (\<lambda>a b. cf b = Some a) (pre @ [x]) \<Longrightarrow> cf (hd (pre @ [x])) = None \<Longrightarrow>
   reconstructPath cf x (x # acc) = Some (pre @ x # acc)"
proof (induction pre arbitrary: x acc rule: rev_induct)
  case Nil
  then show ?case by (subst reconstructPath.simps) simp
next
  case (snoc y pre)
  from snoc.prems(1) have xy: "cf x = Some y" and s: "successively (\<lambda>a b. cf b = Some a) (pre @ [y])"
    by (auto simp: successively_append_iff)
  from snoc.prems(2) have h: "cf (hd (pre @ [y])) = None" by (cases pre) auto
  have "reconstructPath cf x (x # acc) = reconstructPath cf y (y # x # acc)"
    using xy by (subst reconstructPath.simps) simp
  also have "\<dots> = Some (pre @ y # x # acc)" by (rule snoc.IH[OF s h])
  finally show ?case by simp
qed

lemma reconstructPath_chain:
  assumes "chain cf p" "last p = x"
  shows "reconstructPath cf x [x] = Some p"
proof -
  from assms have "p = butlast p @ [x]" by (metis chain_def append_butlast_last_id)
  with assms(1) reconstructPath_chain_aux[of cf "butlast p" x "[]"] show ?thesis
    by (simp add: chain_def)
qed

subsection \<open>Steps of the solver stay inside the grid\<close>

lemma getValidNeighbors_valid:
  assumes "getValidNeighbors st r c = Inr ns" "isValidCell st r c" "n \<in> set ns"
  shows "validPos st n"
  using assms
  by (auto simp: getValidNeighbors_def validPos_def isValidCell_def split: option.splits if_splits)

lemma getValidNeighbors_ok:
  "wf_grid st \<Longrightarrow> isValidCell st r c \<Longrightarrow> \<exists>ns. getValidNeighbors st r c = Inr ns"
  using wf_cellAt[of st r c] by (auto simp: getValidNeighbors_def split: option.splits)

lemma chain_upd:
  assumes "chain cf p" "nb \<notin> set p"
  shows "chain (cf(nb \<mapsto> c)) p"
proof -
  from assms(1) have ne: "p \<noteq> []" and h: "cf (hd p) = None"
    and s: "successively (\<lambda>a b. cf b = Some a) p" by (simp_all add: chain_def)
  from ne assms(2) have "hd p \<noteq> nb" by (metis hd_in_set)
  with h have "(cf(nb \<mapsto> c)) (hd p) = None" by simp
  moreover have "successively (\<lambda>a b. (cf(nb \<mapsto> c)) b = Some a) p"
    using s by (rule successively_mono) (use assms(2) in auto)
  ultimately show ?thesis using ne by (simp add: chain_def)
qed

lemma chain_snoc:
  assumes "chain cf p" "nb \<notin> set p"
  shows "chain (cf(nb \<mapsto> last p)) (p @ [nb])"
proof -
  from chain_upd[OF assms, of "last p"] have c: "chain (cf(nb \<mapsto> last p)) p" .
  then have ne: "p \<noteq> []" by (simp add: chain_def)
  with c show ?thesis
    by (auto simp: chain_def successively_append_iff)
qed

lemma simplePath_snoc:
  assumes "simplePath st p s c" "corridor st c nb" "validPos st nb" "nb \<notin> set p"
  shows "simplePath st (p @ [nb]) s nb"
proof -
  from assms(1) have ne: "p \<noteq> []" by (simp add: simplePath_def corridorPath_def)
  with assms show ?thesis
    by (auto simp: simplePath_def corridorPath_def successively_append_iff)
qed

lemma relax_inv:
  assumes inv: "solverInv st s e k sv" and cur: "cur \<in> closedSet sv"
    and nb: "nb \<notin> closedSet sv" "corridor st cur nb" "validPos st nb"
  shows "solverInv st s e k
           (sv\<lparr>cameFrom := (cameFrom sv)(nb \<mapsto> cur),
               gScore := (gScore sv)(nb \<mapsto> g),
               fScore := ff,
               openSet := (if \<not> contains (openSet sv) nb
                           then enqueue (openSet sv) nb f else openSet sv)\<rparr>)"
    (is "solverInv st s e k ?sv1")
proof -
  from inv have d: "distinct (map val (openSet sv))"
    and dj: "okeys sv \<inter> closedSet sv = {}"
    and un: "okeys sv \<union> closedSet sv = dom (gScore sv)"
    and va: "\<forall>n \<in> dom (gScore sv). validPos st n"
    and e: "e \<notin> closedSet sv" and s: "s \<in> dom (gScore sv)"
    and fin: "finite (closedSet sv)" "card (closedSet sv) = k"
    and ch: "\<forall>n \<in> dom (gScore sv). \<exists>p. chain (cameFrom sv) p \<and> simplePath st p s n \<and>
          set (butlast p) \<subseteq> closedSet sv"
    by (simp_all add: solverInv_def)
  have ok1: "okeys ?sv1 = insert nb (okeys sv)"
    by (auto simp: okeys_def contains_keys enqueue_keys)
  have d1: "distinct (map val (openSet ?sv1))"
    using d by (simp add: contains_keys enqueue_distinct)
  have cl1: "closedSet ?sv1 = closedSet sv" by simp
  have dom1: "dom (gScore ?sv1) = insert nb (dom (gScore sv))" by simp
  from cur un have curd: "cur \<in> dom (gScore sv)" by auto
  from ch curd obtain pc where pc: "chain (cameFrom sv) pc" "simplePath st pc s cur"
    "set (butlast pc) \<subseteq> closedSet sv" by blast
  from pc(2) have pcne: "pc \<noteq> []" and pcl: "last pc = cur"
    by (simp_all add: simplePath_def corridorPath_def)
  have "set pc = insert (last pc) (set (butlast pc))"
    using pcne by (metis append_butlast_last_id list.simps(15) rotate1.simps(2) set_rotate1)
  with pc(3) pcl cur have pcs: "set pc \<subseteq> closedSet sv" by auto
  with nb(1) have nbpc: "nb \<notin> set pc" by auto
  have ch1: "\<forall>n \<in> dom (gScore ?sv1). \<exists>p. chain (cameFrom ?sv1) p \<and> simplePath st p s n \<and>
          set (butlast p) \<subseteq> closedSet ?sv1"
  proof
    fix n assume n: "n \<in> dom (gScore ?sv1)"
    show "\<exists>p. chain (cameFrom ?sv1) p \<and> simplePath st p s n \<and> set (butlast p) \<subseteq> closedSet ?sv1"
    proof (cases "n = nb")
      case True
      have "chain (cameFrom ?sv1) (pc @ [nb])"
        using chain_snoc[OF pc(1) nbpc] pcl by simp
      moreover have "simplePath st (pc @ [nb]) s n"
        using simplePath_snoc[OF pc(2) nb(2,3) nbpc] True by simp
      moreover have "set (butlast (pc @ [nb])) \<subseteq> closedSet ?sv1" using pcs by simp
      ultimately show ?thesis by blast
    next
      case False
      with n have "n \<in> dom (gScore sv)" by auto
      with ch obtain p where p: "chain (cameFrom sv) p" "simplePath st p s n"
        "set (butlast p) \<subseteq> closedSet sv" by blast
      from p(2) have pne: "p \<noteq> []" and pl: "last p = n"
        by (simp_all add: simplePath_def corridorPath_def)
      have "set p = insert (last p) (set (butlast p))"
        using pne by (metis append_butlast_last_id list.simps(15) rotate1.simps(2) set_rotate1)
      with p(3) pl False nb(1) have "nb \<notin> set p" by auto
      from chain_upd[OF p(1) this, of cur] p(2,3) show ?thesis by auto
    qed
  qed
  show ?thesis
    unfolding solverInv_def
    using d1 ok1 dj un va e s fin ch1 nb(1,3) unfolding cl1 dom1
    by (intro conjI) auto
qed

lemma expand_inv:
  assumes "\<forall>nb \<in> set nbs. corridor st cur nb \<and> validPos st nb"
    and "solverInv st s e k sv" and "cur \<in> closedSet sv"
  shows "\<exists>sv'. expand e cur nbs sv = Inr sv' \<and> solverInv st s e k sv' \<and>
      closedSet sv' = closedSet sv \<and> dom (gScore sv) \<subseteq> dom (gScore sv') \<and>
      set nbs \<subseteq> dom (gScore sv')"
  using assms
proof (induction nbs arbitrary: sv)
  case Nil
  then show ?case by simp
next
  case (Cons nb nbs)
  from Cons.prems(1) have rest: "\<forall>nb \<in> set nbs. corridor st cur nb \<and> validPos st nb"
    and nb: "corridor st cur nb" "validPos st nb" by simp_all
  from Cons.prems(2) have un: "okeys sv \<union> closedSet sv = dom (gScore sv)"
    by (simp add: solverInv_def)
  with Cons.prems(3) obtain g where g: "gScore sv cur = Some g" by auto
  define relaxed where "relaxed \<longleftrightarrow> nb \<notin> closedSet sv \<and>
      (case gScore sv nb of None \<Rightarrow> True | Some gn \<Rightarrow> g + 1 < gn)"
  show ?case
  proof (cases relaxed)
    case False
    then have eq: "expand e cur (nb # nbs) sv = expand e cur nbs sv"
      using g by (auto simp: relaxed_def Let_def split: option.splits)
    from False un have nbd: "nb \<in> dom (gScore sv)"
      by (auto simp: relaxed_def split: option.splits)
    from Cons.IH[OF rest Cons.prems(2,3)] obtain sv' where
      "expand e cur nbs sv = Inr sv'" "solverInv st s e k sv'"
      "closedSet sv' = closedSet sv" "dom (gScore sv) \<subseteq> dom (gScore sv')"
      "set nbs \<subseteq> dom (gScore sv')" by blast
    with eq nbd show ?thesis by auto
  next
    case True
    then have nc: "nb \<notin> closedSet sv" by (simp add: relaxed_def)
    define sv1 where "sv1 = sv\<lparr>cameFrom := (cameFrom sv)(nb \<mapsto> cur),
               gScore := (gScore sv)(nb \<mapsto> g + 1),
               fScore := (fScore sv)(nb \<mapsto> g + 1 + heuristic e (fst nb) (snd nb)),
               openSet := (if \<not> contains (openSet sv) nb
                           then enqueue (openSet sv) nb (g + 1 + heuristic e (fst nb) (snd nb))
                           else openSet sv)\<rparr>"
    have eq: "expand e cur (nb # nbs) sv = expand e cur nbs sv1"
      using True g by (auto simp: relaxed_def Let_def sv1_def split: option.splits)
    have inv1: "solverInv st s e k sv1"
      unfolding sv1_def by (rule relax_inv[OF Cons.prems(2,3) nc nb])
    have cl1: "closedSet sv1 = closedSet sv" by (simp add: sv1_def)
    have dom1: "dom (gScore sv1) = insert nb (dom (gScore sv))" by (simp add: sv1_def)
    from Cons.prems(3) cl1 have "cur \<in> closedSet sv1" by simp
    from Cons.IH[OF rest inv1 this] obtain sv' where
      "expand e cur nbs sv1 = Inr sv'" "solverInv st s e k sv'"
      "closedSet sv' = closedSet sv1" "dom (gScore sv1) \<subseteq> dom (gScore sv')"
      "set nbs \<subseteq> dom (gScore sv')" by blast
    with eq cl1 dom1 show ?thesis by auto
  qed
qed

lemma validPos_set: "{p. validPos st p} = {0..<rows st} \<times> {0..<cols st}"
  by (auto simp: validPos_def isValidCell_def)

lemma validPos_finite: "finite {p. validPos st p}"
  by (simp add: validPos_set)

lemma validPos_card:
  "0 \<le> rows st \<Longrightarrow> 0 \<le> cols st \<Longrightarrow> int (card {p. validPos st p}) = rows st * cols st"
  by (simp add: validPos_set card_cartesian_product)

lemma walk_closed:
  "corridorPath st p \<Longrightarrow> hd p \<in> C \<Longrightarrow> (\<forall>c \<in> C. \<forall>n. corridor st c n \<longrightarrow> n \<in> C) \<Longrightarrow> set p \<subseteq> C"
proof (induction p)
  case Nil
  then show ?case by simp
next
  case (Cons a p)
  show ?case
  proof (cases p)
    case Nil
    with Cons.prems show ?thesis by simp
  next
    case (Cons b q)
    with Cons.prems have "corridor st a b" "corridorPath st p" "a \<in> C"
      by (simp_all add: corridorPath_def)
    with Cons.prems(3) Cons.IH Cons local.Cons show ?thesis by auto
  qed
qed

lemma astar_unfold:
  "astar st endKey iterations sv =
     (if \<not> isEmpty (openSet sv) \<and> int iterations < rows st * cols st
      then (case dequeue (openSet sv) of
              (None, values) \<Rightarrow> Inl TypeError
            | (Some currentKey, values) \<Rightarrow>
                if currentKey = endKey
                then Inr (ReachedEnd (cameFrom sv) currentKey (Suc iterations))
                else (case getValidNeighbors st (fst currentKey) (snd currentKey) of
                        Inl err \<Rightarrow> Inl err
                      | Inr neighbors \<Rightarrow>
                          (case expand endKey currentKey neighbors
                                  (sv\<lparr>openSet := values,
                                      closedSet := insert currentKey (closedSet sv)\<rparr>) of
                             Inl err \<Rightarrow> Inl err
                           | Inr sv1 \<Rightarrow> astar st endKey (Suc iterations) sv1)))
      else Inr (LoopEnded iterations))"
  by (rule astar.simps)

lemma close_inv:
  assumes inv: "solverInv st s e k sv" and ne: "openSet sv \<noteq> []"
    and dq: "dequeue (openSet sv) = (r, rest)"
  shows "\<exists>cur. r = Some cur \<and> cur \<in> dom (gScore sv) \<and> cur \<notin> closedSet sv \<and>
      (cur \<noteq> e \<longrightarrow> solverInv st s e (Suc k) (sv\<lparr>openSet := rest, closedSet := insert cur (closedSet sv)\<rparr>))"
proof -
  from inv have d: "distinct (map val (openSet sv))"
    and dj: "okeys sv \<inter> closedSet sv = {}"
    and un: "okeys sv \<union> closedSet sv = dom (gScore sv)"
    and va: "\<forall>n \<in> dom (gScore sv). validPos st n"
    and e: "e \<notin> closedSet sv" and s: "s \<in> dom (gScore sv)"
    and fin: "finite (closedSet sv)" "card (closedSet sv) = k"
    and ch: "\<forall>n \<in> dom (gScore sv). \<exists>p. chain (cameFrom sv) p \<and> simplePath st p s n \<and>
          set (butlast p) \<subseteq> closedSet sv"
    by (simp_all add: solverInv_def)
  define cur where "cur = val (openSet sv ! 0)"
  note dk = dequeue_keys[OF ne d dq, folded cur_def]
  from dk(2) have co: "cur \<in> okeys sv" by (simp add: okeys_def)
  with dj un have cd: "cur \<in> dom (gScore sv)" and cc: "cur \<notin> closedSet sv" by auto
  let ?sv0 = "sv\<lparr>openSet := rest, closedSet := insert cur (closedSet sv)\<rparr>"
  have ok0: "okeys ?sv0 = okeys sv - {cur}" using dk(3) by (simp add: okeys_def)
  have ch0: "\<forall>n \<in> dom (gScore ?sv0). \<exists>p. chain (cameFrom ?sv0) p \<and> simplePath st p s n \<and>
          set (butlast p) \<subseteq> closedSet ?sv0"
  proof
    fix n assume "n \<in> dom (gScore ?sv0)"
    then have "n \<in> dom (gScore sv)" by simp
    with ch obtain p where "chain (cameFrom sv) p" "simplePath st p s n"
      "set (butlast p) \<subseteq> closedSet sv" by blast
    then show "\<exists>p. chain (cameFrom ?sv0) p \<and> simplePath st p s n \<and>
          set (butlast p) \<subseteq> closedSet ?sv0" by auto
  qed
  have "cur \<noteq> e \<Longrightarrow> solverInv st s e (Suc k) ?sv0"
    unfolding solverInv_def
    using dk(4) ok0 dj un va e s fin cc co
    by (intro conjI ch0) auto
  with dk(1) cd cc show ?thesis by blast
qed

lemma astar_run:
  assumes wf: "wf_grid st"
  shows "solverInv st s e k sv \<Longrightarrow> expanded st sv (closedSet sv) \<Longrightarrow>
     \<exists>x. astar st e k sv = Inr x \<and>
        (case x of
           ReachedEnd cf c n \<Rightarrow> c = e \<and> int n \<le> rows st * cols st \<and>
               (\<exists>p. chain cf p \<and> simplePath st p s e)
         | LoopEnded n \<Rightarrow> int n \<le> rows st * cols st \<and> \<not> reachable st s e)"
proof (induction "nat (rows st * cols st) - k" arbitrary: k sv rule: less_induct)
  case less
  note inv = less.prems(1) and ex = less.prems(2)
  from inv have d: "distinct (map val (openSet sv))"
    and dj: "okeys sv \<inter> closedSet sv = {}"
    and un: "okeys sv \<union> closedSet sv = dom (gScore sv)"
    and va: "\<forall>n \<in> dom (gScore sv). validPos st n"
    and e: "e \<notin> closedSet sv" and s: "s \<in> dom (gScore sv)"
    and fin: "finite (closedSet sv)" "card (closedSet sv) = k"
    and ch: "\<forall>n \<in> dom (gScore sv). \<exists>p. chain (cameFrom sv) p \<and> simplePath st p s n \<and>
          set (butlast p) \<subseteq> closedSet sv"
    by (simp_all add: solverInv_def)
  from va s have "validPos st s" by blast
  then have pos: "0 \<le> rows st" "0 \<le> cols st" by (simp_all add: validPos_def isValidCell_def)
  have cv: "closedSet sv \<subseteq> {p. validPos st p}" using un va by auto
  have kR: "int k \<le> rows st * cols st"
    using card_mono[OF validPos_finite cv] fin(2) validPos_card[OF pos] by simp
  show ?case
  proof (cases "\<not> isEmpty (openSet sv) \<and> int k < rows st * cols st")
    case False
    have res: "astar st e k sv = Inr (LoopEnded k)"
      by (subst astar_unfold) (simp only: False if_False)
    have empty: "openSet sv = []"
    proof (rule ccontr)
      assume ne: "openSet sv \<noteq> []"
      with False have "rows st * cols st \<le> int k" by (simp add: isEmpty_Nil)
      with kR have "card (closedSet sv) = card {p. validPos st p}"
        using fin(2) validPos_card[OF pos] by simp
      with cv have "closedSet sv = {p. validPos st p}"
        using validPos_finite by (metis card_subset_eq)
      with un va have "okeys sv \<subseteq> closedSet sv" by auto
      with dj have "okeys sv = {}" by auto
      with ne show False by (simp add: okeys_def)
    qed
    have "\<not> reachable st s e"
    proof
      assume "reachable st s e"
      then obtain p where p: "corridorPath st p" "hd p = s" "last p = e"
        by (auto simp: reachable_def)
      from empty un have dc: "dom (gScore sv) = closedSet sv" by (simp add: okeys_def)
      with s p(2) have "hd p \<in> closedSet sv" by simp
      moreover from ex dc have "\<forall>c \<in> closedSet sv. \<forall>n. corridor st c n \<longrightarrow> n \<in> closedSet sv"
        by (simp add: expanded_def)
      ultimately have "set p \<subseteq> closedSet sv" using walk_closed[OF p(1)] by blast
      moreover from p(1) have "p \<noteq> []" by (simp add: corridorPath_def)
      ultimately have "last p \<in> closedSet sv" using last_in_set by blast
      with p(3) e show False by simp
    qed
    with res kR show ?thesis by simp
  next
    case True
    then have ne: "openSet sv \<noteq> []" and lt: "int k < rows st * cols st"
      by (simp_all add: isEmpty_Nil)
    obtain r rest where dq: "dequeue (openSet sv) = (r, rest)" by (cases "dequeue (openSet sv)")
    from close_inv[OF inv ne dq] obtain cur where r: "r = Some cur"
      and cd: "cur \<in> dom (gScore sv)" and cc: "cur \<notin> closedSet sv"
      and inv0: "cur \<noteq> e \<Longrightarrow>
         solverInv st s e (Suc k) (sv\<lparr>openSet := rest, closedSet := insert cur (closedSet sv)\<rparr>)"
      by blast
    show ?thesis
    proof (cases "cur = e")
      case True
      then have res: "astar st e k sv = Inr (ReachedEnd (cameFrom sv) e (Suc k))"
        using dq r
        by (subst astar_unfold)
           (simp only: \<open>\<not> isEmpty (openSet sv) \<and> int k < rows st * cols st\<close> if_True, simp)
      from ch cd True obtain p where "chain (cameFrom sv) p" "simplePath st p s e" by blast
      with res lt show ?thesis by auto
    next
      case False
      let ?sv0 = "sv\<lparr>openSet := rest, closedSet := insert cur (closedSet sv)\<rparr>"
      note i0 = inv0[OF False]
      from va cd have "validPos st cur" by blast
      then have vc: "isValidCell st (fst cur) (snd cur)" by (simp add: validPos_def)
      from getValidNeighbors_ok[OF wf vc] obtain nbs where
        nbs: "getValidNeighbors st (fst cur) (snd cur) = Inr nbs" by blast
      have nbp: "\<forall>nb \<in> set nbs. corridor st cur nb \<and> validPos st nb"
        using nbs getValidNeighbors_valid[OF nbs vc] by (auto simp: corridor_def)
      have "cur \<in> closedSet ?sv0" by simp
      from expand_inv[OF nbp i0 this] obtain sv' where
        ex': "expand e cur nbs ?sv0 = Inr sv'" and inv': "solverInv st s e (Suc k) sv'"
        and cl': "closedSet sv' = closedSet ?sv0" and dom': "dom (gScore ?sv0) \<subseteq> dom (gScore sv')"
        and nb': "set nbs \<subseteq> dom (gScore sv')" by blast
      have exd: "expanded st sv' (closedSet sv')"
        unfolding expanded_def
      proof (intro ballI allI impI)
        fix c n assume c: "c \<in> closedSet sv'" and cn: "corridor st c n"
        show "n \<in> dom (gScore sv')"
        proof (cases "c = cur")
          case True
          with cn nbs have "n \<in> set nbs" by (simp add: corridor_def)
          with nb' show ?thesis by auto
        next
          case False
          with c cl' have "c \<in> closedSet sv" by simp
          with ex cn have "n \<in> dom (gScore sv)" unfolding expanded_def by blast
          with dom' show ?thesis by auto
        qed
      qed
      have unf: "astar st e k sv = astar st e (Suc k) sv'"
        using dq r False nbs ex'
        by (subst astar_unfold)
           (simp only: \<open>\<not> isEmpty (openSet sv) \<and> int k < rows st * cols st\<close> if_True, simp)
      have "nat (rows st * cols st) - Suc k < nat (rows st * cols st) - k" using lt by linarith
      from less.hyps[OF this inv' exd] unf show ?thesis by simp
    qed
  qed
qed

lemma solver_init:
  assumes "validPos st s"
  shows "solverInv st s e 0 (initialSolver s e)"
    "expanded st (initialSolver s e) (closedSet (initialSolver s e))"
proof -
  have ok: "okeys (initialSolver s e) = {s}"
    by (simp add: okeys_def initialSolver_def enqueue_keys)
  have d: "distinct (map val (openSet (initialSolver s e)))"
    by (simp add: initialSolver_def enqueue_distinct)
  have "chain (cameFrom (initialSolver s e)) [s]" by (simp add: chain_def initialSolver_def)
  moreover have "simplePath st [s] s s"
    using assms by (simp add: simplePath_def corridorPath_def)
  ultimately have ch: "\<exists>p. chain (cameFrom (initialSolver s e)) p \<and> simplePath st p s s \<and>
      set (butlast p) \<subseteq> closedSet (initialSolver s e)"
    by (intro exI[of _ "[s]"]) simp
  have dm: "dom (gScore (initialSolver s e)) = {s}" by (simp add: initialSolver_def)
  have cl: "closedSet (initialSolver s e) = {}" by (simp add: initialSolver_def)
  have chb: "\<forall>n \<in> dom (gScore (initialSolver s e)).
      \<exists>p. chain (cameFrom (initialSolver s e)) p \<and> simplePath st p s n \<and>
      set (butlast p) \<subseteq> closedSet (initialSolver s e)"
  proof
    fix n assume "n \<in> dom (gScore (initialSolver s e))"
    with dm have "n = s" by blast
    with ch show "\<exists>p. chain (cameFrom (initialSolver s e)) p \<and> simplePath st p s n \<and>
      set (butlast p) \<subseteq> closedSet (initialSolver s e)" by blast
  qed
  show "solverInv st s e 0 (initialSolver s e)"
    unfolding solverInv_def by (intro conjI chb d) (simp_all add: ok dm cl assms)
  show "expanded st (initialSolver s e) (closedSet (initialSolver s e))"
    by (simp add: expanded_def cl)
qed

lemma solveMaze_run:
  assumes wf: "wf_grid st" and s: "start st = Some s" and e: "end' st = Some e"
    and vs: "validPos st s" and ns: "\<not> solving st"
  shows "\<exists>res n. solveMaze st = Some (Inr (res, n, st\<lparr>solving := False\<rparr>)) \<and>
      int n \<le> rows st * cols st \<and>
      (case res of Found p \<Rightarrow> simplePath st p s e
                 | NotFound \<Rightarrow> \<not> reachable st s e
                 | Busy \<Rightarrow> False)"
proof -
  from astar_run[OF wf solver_init[OF vs, of e]] obtain x where
    x: "astar st e 0 (initialSolver s e) = Inr x"
    and px: "case x of
           ReachedEnd cf c n \<Rightarrow> c = e \<and> int n \<le> rows st * cols st \<and>
               (\<exists>p. chain cf p \<and> simplePath st p s e)
         | LoopEnded n \<Rightarrow> int n \<le> rows st * cols st \<and> \<not> reachable st s e"
    by blast
  show ?thesis
  proof (cases x)
    case (LoopEnded n)
    with x px s e ns show ?thesis
      by (intro exI[of _ NotFound] exI[of _ n]) (simp add: solveMaze_def)
  next
    case (ReachedEnd cf c n)
    with px obtain p where c: "c = e" and n: "int n \<le> rows st * cols st"
      and p: "chain cf p" "simplePath st p s e" by auto
    from p(2) have "last p = e" by (simp add: simplePath_def)
    from reconstructPath_chain[OF p(1) this] have rp: "reconstructPath cf e [e] = Some p" .
    from p(2) have "list_all (validPos st) p" by (simp add: simplePath_def)
    then have mp: "markPath st s e p = Inr ()"
      by (auto simp: markPath_def list_all_iff validPos_def)
    from x ReachedEnd c rp mp s e ns n p(2) show ?thesis
      by (intro exI[of _ "Found p"] exI[of _ n]) (simp add: solveMaze_def)
  qed
qed

lemma walk_shorten:
  "corridorPath st w \<Longrightarrow> list_all (validPos st) w \<Longrightarrow>
   \<exists>p. simplePath st p (hd w) (last w) \<and> length p \<le> length w"
proof (induction "length w" arbitrary: w rule: less_induct)
  case less
  show ?case
  proof (cases "distinct w")
    case True
    with less.prems show ?thesis by (auto simp: simplePath_def)
  next
    case False
    then obtain xs ys zs y where w: "w = xs @ [y] @ ys @ [y] @ zs"
      using not_distinct_decomp by blast
    define w' where "w' = xs @ [y] @ zs"
    from less.prems(1) have sc: "successively (corridor st) w" by (simp add: corridorPath_def)
    have s1: "successively (corridor st) (xs @ [y])"
      using sc unfolding w by (simp add: successively_append_iff)
    have "w = (xs @ [y] @ ys) @ ([y] @ zs)" by (simp add: w)
    with sc have s2: "successively (corridor st) ([y] @ zs)"
      by (metis successively_append_iff)
    have "successively (corridor st) w'"
      using s1 s2 unfolding w'_def by (cases zs) (auto simp: successively_append_iff)
    then have cp: "corridorPath st w'" by (simp add: corridorPath_def w'_def)
    have va: "list_all (validPos st) w'" using less.prems(2) by (simp add: w w'_def)
    have len: "length w' < length w" by (simp add: w w'_def)
    have hl: "hd w' = hd w" "last w' = last w"
      by (cases xs; simp add: w w'_def)+
    from less.hyps[OF len cp va] hl len show ?thesis by (metis le_trans less_imp_le_nat)
  qed
qed

lemma corridor_validPos:
  assumes "wf_grid st" "corridor st a b"
  shows "validPos st a" "validPos st b"
proof -
  from assms(2) obtain ns where ns: "getValidNeighbors st (fst a) (snd a) = Inr ns" "b \<in> set ns"
    by (auto simp: corridor_def split: sum.splits)
  then have "cellAt (maze st) (fst a) (snd a) \<noteq> None"
    by (auto simp: getValidNeighbors_def split: option.splits)
  with wf_cellAt[OF assms(1)] have v: "isValidCell st (fst a) (snd a)" by simp
  then show "validPos st a" by (simp add: validPos_def)
  from getValidNeighbors_valid[OF ns(1) v ns(2)] show "validPos st b" .
qed

lemma walk_valid:
  assumes "wf_grid st"
  shows "corridorPath st w \<Longrightarrow> validPos st (hd w) \<Longrightarrow> list_all (validPos st) w"
proof (induction w)
  case Nil
  then show ?case by simp
next
  case (Cons a w)
  show ?case
  proof (cases w)
    case Nil
    with Cons.prems show ?thesis by simp
  next
    case (Cons b q)
    with Cons.prems have "corridor st a b" "corridorPath st w"
      by (simp_all add: corridorPath_def)
    with corridor_validPos[OF assms] Cons.IH Cons.prems(2) local.Cons show ?thesis by simp
  qed
qed

lemma corridorGrid_wf: "wf_grid corridorGrid"
  by (simp add: wf_grid_def corridorGrid_def)

lemma corridorGrid_valid: "validPos corridorGrid p \<longleftrightarrow> p = (0, 0) \<or> p = (0, 1) \<or> p = (0, 2)"
  by (cases p) (auto simp: validPos_def isValidCell_def corridorGrid_def)

lemma corridorGrid_steps:
  "corridor corridorGrid a b \<longleftrightarrow>
     (a = (0, 0) \<and> b = (0, 1)) \<or> (a = (0, 1) \<and> b = (0, 0)) \<or>
     (a = (0, 1) \<and> b = (0, 2)) \<or> (a = (0, 2) \<and> b = (0, 1))"
proof (cases "validPos corridorGrid a")
  case False
  with corridor_validPos(1)[OF corridorGrid_wf, of a b] have "\<not> corridor corridorGrid a b" by blast
  with False show ?thesis by (auto simp: corridorGrid_valid)
next
  case True
  then consider "a = (0, 0)" | "a = (0, 1)" | "a = (0, 2)" by (auto simp: corridorGrid_valid)
  then show ?thesis
  proof cases
    case 1
    then show ?thesis
      by (auto simp: corridor_def getValidNeighbors_def cellAt_def corridorGrid_def carved_def)
  next
    case 2
    then show ?thesis
      by (auto simp: corridor_def getValidNeighbors_def cellAt_def corridorGrid_def carved_def)
  next
    case 3
    then show ?thesis
      by (auto simp: corridor_def getValidNeighbors_def cellAt_def corridorGrid_def carved_def)
  qed
qed

lemma three_distinct:
  assumes "distinct p" "set p \<subseteq> {x, y, z}"
  shows "length p \<le> 3"
proof -
  have "length p = card (set p)" using assms(1) by (simp add: distinct_card)
  also have "\<dots> \<le> card {x, y, z}" using assms(2) by (intro card_mono) auto
  also have "\<dots> \<le> 3" by (simp add: card_insert_if)
  finally show ?thesis .
qed

lemma corridorGrid_paths:
  "simplePath corridorGrid p a b \<longleftrightarrow>
     (p, a, b) \<in> {([(0, 0)], (0, 0), (0, 0)), ([(0, 1)], (0, 1), (0, 1)), ([(0, 2)], (0, 2), (0, 2)),
                 ([(0, 0), (0, 1)], (0, 0), (0, 1)), ([(0, 1), (0, 0)], (0, 1), (0, 0)),
                 ([(0, 1), (0, 2)], (0, 1), (0, 2)), ([(0, 2), (0, 1)], (0, 2), (0, 1)),
                 ([(0, 0), (0, 1), (0, 2)], (0, 0), (0, 2)), ([(0, 2), (0, 1), (0, 0)], (0, 2), (0, 0))}"
  (is "?L \<longleftrightarrow> ?R")
proof
  assume ?R
  then show ?L
    by (auto simp: simplePath_def corridorPath_def corridorGrid_steps corridorGrid_valid)
next
  assume L: ?L
  then have d: "distinct p" and v: "list_all (validPos corridorGrid) p"
    and ne: "p \<noteq> []" and sc: "successively (corridor corridorGrid) p"
    and ab: "hd p = a" "last p = b"
    by (simp_all add: simplePath_def corridorPath_def)
  from v have "set p \<subseteq> {(0, 0), (0, 1), (0, 2)}"
    by (auto simp: list_all_iff corridorGrid_valid)
  from three_distinct[OF d this] have len: "length p \<le> 3" .
  from ne obtain x q where p1: "p = x # q" by (cases p) auto
  show ?R
  proof (cases q)
    case Nil
    with p1 v ab show ?thesis by (auto simp: corridorGrid_valid)
  next
    case (Cons y q2)
    note p2 = this
    show ?thesis
    proof (cases q2)
      case Nil
      with p1 p2 sc ab show ?thesis by (auto simp: corridorGrid_steps)
    next
      case (Cons z q3)
      with p1 p2 len have "q3 = []" by simp
      with p1 p2 Cons sc ab d show ?thesis by (auto simp: corridorGrid_steps)
    qed
  qed
qed

lemma corridorGrid_perfect: "perfectMaze corridorGrid"
  unfolding perfectMaze_def
proof (intro conjI allI impI)
  show "wallsSymmetric corridorGrid"
    by (simp add: wallsSymmetric_def cells_def wallFlag_def corridorGrid_def upto.simps eval_defs)
next
  fix a b assume "validPos corridorGrid a \<and> validPos corridorGrid b"
  then have "a \<in> {(0, 0), (0, 1), (0, 2)}" "b \<in> {(0, 0), (0, 1), (0, 2)}"
    by (auto simp: corridorGrid_valid)
  then show "\<exists>!p. simplePath corridorGrid p a b"
    by (elim insertE emptyE; simp add: corridorGrid_paths)
qed

section \<open>Claims\<close>

text \<open>
  C8. While the cycle's \<open>isSolving\<close> flag is set, \<open>generateMaze\<close> (full or partial)
  resolves to \<open>false\<close> at once: the only change to the state is the warning appended by
  \<open>console.warn\<close>; grid, Start, End and flags are as before. Nothing is queued.
\<close>

theorem generateMaze_rejected_while_solving:
  "isSolving st \<Longrightarrow>
   generateMaze rnd keepStart st =
     Resolved False
       (st\<lparr>warnings := warnings st @ [''Cannot generate maze while solving is in progress'']\<rparr>)"
  by (simp add: generateMaze_def)

theorem generateMaze_rejected_while_solving_witness:
  "isSolving ((newGrid 3 3)\<lparr>isSolving := True\<rparr>) \<and>
   generateMaze (\<lambda>k. 0) True ((newGrid 3 3)\<lparr>isSolving := True\<rparr>) =
     Resolved False
       ((newGrid 3 3)\<lparr>isSolving := True,
          warnings := [''Cannot generate maze while solving is in progress'']\<rparr>)"
  using generateMaze_rejected_while_solving [of "(newGrid 3 3)\<lparr>isSolving := True\<rparr>" "\<lambda>k. 0" True]
  by (simp add: newGrid_def)

text \<open>
  C5. Partial regeneration (\<open>generateMaze\<close> with \<open>keepStart = true\<close>) on a well-formed grid
  whose Start is a cell, when no solve is in progress: the reset loop makes every cell other
  than Start the blank cell (all walls, \<open>inMaze = false\<close>, \<open>visited = false\<close>) and leaves
  Start's cell as it was except that \<open>inMaze\<close> is \<open>true\<close>; carving starts from Start; after
  carving, \<open>selectNewEndPoint\<close> (not \<open>selectPoints\<close>) decides the result; Start's coordinates
  are unchanged and Start is still in the maze at the end.
\<close>

theorem partial_regeneration_frame:
  assumes wf: "wf_grid st" and s: "start st = Some (sr, sc)" and v: "isValidCell st sr sc"
    and ns: "\<not> isSolving st" and ur: "unit_rnd rnd"
  shows "\<exists>st1 ws k2 st2 b st3.
     resetMaze True st = Inr st1 \<and>
     (\<forall>r c. isValidCell st r c \<and> (r, c) \<noteq> (sr, sc) \<longrightarrow> cellAt (maze st1) r c = Some blankCell) \<and>
     (\<exists>cl. cellAt (maze st) sr sc = Some cl \<and> cellAt (maze st1) sr sc = Some (cl\<lparr>inMaze := True\<rparr>)) \<and>
     start st1 = Some (sr, sc) \<and>
     addWalls st1 sr sc [] = Inr ws \<and>
     (if isGenerating st then carve rnd 0 st1 ws else Inr (0, st1)) = Inr (k2, st2) \<and>
     generateMaze rnd True st = Resolved b st3 \<and>
     selectNewEndPoint rnd k2 st2 = (if b then Inr st3 else Inl (TypeError, st3)) \<and>
     start st3 = Some (sr, sc) \<and> cellInMaze st3 sr sc"
proof -
  from resetMaze_keepStart[OF wf s v] obtain st1 where
    r: "resetMaze True st = Inr st1" and f1: "frame st st1"
    and blank: "\<forall>r c. isValidCell st r c \<and> (r, c) \<noteq> (sr, sc) \<longrightarrow> cellAt (maze st1) r c = Some blankCell"
    and sc: "\<exists>cl. cellAt (maze st) sr sc = Some cl \<and> cellAt (maze st1) sr sc = Some (cl\<lparr>inMaze := True\<rparr>)"
    by blast
  have wf1: "wf_grid st1" using f1 wf by (rule frame_wf)
  have s1: "start st1 = Some (sr, sc)" using frame_fields(3)[OF f1] s by simp
  have g1: "isGenerating st1 = isGenerating st" using frame_fields(6)[OF f1] .
  from sc have in1: "cellInMaze st1 sr sc" by (auto simp: cellInMaze_def)
  from addWalls_ok[OF wf1] obtain ws where ws: "addWalls st1 sr sc [] = Inr ws" by blast
  from carve_ok[OF ur wf1] obtain k' st' where
    cv: "carve rnd 0 st1 ws = Inr (k', st')" and f2: "frame st1 st'" by blast
  define k2 where "k2 = (if isGenerating st then k' else 0)"
  define st2 where "st2 = (if isGenerating st then st' else st1)"
  have pc: "processChunk rnd 0 True st1 ws = Inr (k2, st2)"
    using cv by (simp add: processChunk_def g1 k2_def st2_def)
  have cv2: "(if isGenerating st then carve rnd 0 st1 ws else Inr (0, st1)) = Inr (k2, st2)"
    using cv by (simp add: k2_def st2_def)
  have s2: "start st2 = Some (sr, sc)"
    using s1 frame_fields(3)[OF f2] by (simp add: st2_def)
  have in2: "cellInMaze st2 sr sc"
    using in1 carve_inMaze_mono[OF cv] by (simp add: st2_def)
  from selectNewEndPoint_cases[of rnd k2 st2] obtain b st3 where
    sel: "selectNewEndPoint rnd k2 st2 = (if b then Inr st3 else Inl (TypeError, st3))"
    and s3: "start st3 = start st2" and m3: "maze st3 = maze st2" by blast
  have g: "generateMaze rnd True st = Resolved b st3"
    using ns r ws pc s2 sel by (simp add: generateMaze_def seedCell_def s1)
  from in2 m3 have in3: "cellInMaze st3 sr sc" by (simp add: cellInMaze_def)
  from s3 s2 have s3': "start st3 = Some (sr, sc)" by simp
  show ?thesis
    by (intro exI[of _ st1] exI[of _ ws] exI[of _ k2] exI[of _ st2] exI[of _ b] exI[of _ st3]
        conjI r blank sc s1 ws cv2 g sel s3' in3)
qed

theorem partial_regeneration_frame_witness:
  "start ((newGrid 3 3)\<lparr>start := Some (0, 0), isGenerating := True\<rparr>) = Some (0, 0) \<and>
   isValidCell ((newGrid 3 3)\<lparr>start := Some (0, 0), isGenerating := True\<rparr>) 0 0 \<and>
   \<not> isSolving ((newGrid 3 3)\<lparr>start := Some (0, 0), isGenerating := True\<rparr>) \<and>
   (\<exists>b st3. generateMaze (\<lambda>k. 0) True ((newGrid 3 3)\<lparr>start := Some (0, 0), isGenerating := True\<rparr>)
            = Resolved b st3 \<and> start st3 = Some (0, 0) \<and> cellInMaze st3 0 0)"
proof -
  let ?st = "(newGrid 3 3)\<lparr>start := Some (0, 0), isGenerating := True\<rparr>"
  have wf: "wf_grid ?st" by (simp add: wf_grid_def newGrid_def)
  have s: "start ?st = Some (0, 0)" by simp
  have v: "isValidCell ?st 0 0" by (simp add: isValidCell_def newGrid_def)
  have ns: "\<not> isSolving ?st" by (simp add: newGrid_def)
  have ur: "unit_rnd (\<lambda>k. 0)" by (simp add: unit_rnd_def)
  from partial_regeneration_frame [OF wf s v ns ur] obtain b st3 where
    "generateMaze (\<lambda>k. 0) True ?st = Resolved b st3"
    "start st3 = Some (0, 0)" "cellInMaze st3 0 0"
    by blast
  with s v ns show ?thesis by blast
qed

text \<open>
  C4, as amended. End-only reselection (\<open>selectNewEndPoint\<close>): the new End is at Manhattan
  distance at least \<open>minDistance\<close> from Start, unless none of the 100 samples qualified; then
  End is one of the four grid corners and no corner is farther from Start. Full selection
  (\<open>selectPoints\<close>), when it returns: Start and End are one of the 1000 sampled pairs, they
  differ, and no sampled pair of different cells is farther apart; \<open>minDistance\<close> is not
  consulted.
\<close>

theorem selection_distance:
  "(start st = Some s0 \<and> selectNewEndPoint rnd k st = Inr st' \<longrightarrow>
      (\<exists>e. end' st' = Some e \<and> start st' = Some s0 \<and>
         (minDistance st \<le> manhattan s0 e \<or>
          (sampleEnd rnd k st s0 0 = None \<and> e \<in> set (corners st) \<and>
           (\<forall>q \<in> set (corners st). manhattan s0 q \<le> manhattan s0 e))))) \<and>
   (selectPoints rnd k st = Inr st'' \<longrightarrow>
      (\<exists>s e a. start st'' = Some s \<and> end' st'' = Some e \<and> s \<noteq> e \<and> a < 1000 \<and>
         (s, e) = samplePair rnd k st a \<and>
         (\<forall>b < 1000. case samplePair rnd k st b of
                        (s', e') \<Rightarrow> s' \<noteq> e' \<longrightarrow> manhattan s' e' \<le> manhattan s e)))"
  using selectNewEndPoint_distance selectPoints_best by blast

theorem selection_distance_witness:
  "start ((newGrid 3 3)\<lparr>start := Some (0, 0)\<rparr>) = Some (0, 0) \<and>
   selectNewEndPoint (rndOf [0, 0, 0, 1/3]) 0 ((newGrid 3 3)\<lparr>start := Some (0, 0)\<rparr>)
     = Inr ((newGrid 3 3)\<lparr>start := Some (0, 0), end' := Some (2, 2)\<rparr>) \<and>
   selectPoints (rndOf [0, 0, 0, 1/3]) 0 ((newGrid 3 3)\<lparr>start := Some (0, 0)\<rparr>)
     = Inr ((newGrid 3 3)\<lparr>start := Some (0, 0), end' := Some (0, 1)\<rparr>) \<and>
   sampleEnd (rndOf [0, 0, 0, 1/3]) 0 ((newGrid 3 3)\<lparr>start := Some (0, 0)\<rparr>) (0, 0) 0 = None \<and>
   (2, 2) \<in> set (corners ((newGrid 3 3)\<lparr>start := Some (0, 0)\<rparr>)) \<and>
   manhattan (0, 0) (0, 2) \<le> manhattan (0, 0) (2, 2) \<and>
   manhattan (0, 0) (2, 0) \<le> manhattan (0, 0) (2, 2)"
proof -
  let ?rnd = "rndOf [0, 0, 0, 1/3]"
  let ?st = "(newGrid 3 3)\<lparr>start := Some (0, 0)\<rparr>"
  have tail: "\<forall>j \<ge> 4. ?rnd j = 0" using rnd_ge[of "[0, 0, 0, 1/3]"] by simp
  have md: "minDistance ?st = 12" "rows ?st = 3" "cols ?st = 3" by (simp_all add: newGrid_def)
  have se: "sampleEnd ?rnd 0 ?st (0, 0) 0 = None"
  proof -
    have "sampleEnd ?rnd 0 ?st (0, 0) 0 = sampleEnd ?rnd (0 + 2) ?st (0, 0) (0 + 1)"
      by (subst sampleEnd.simps) (simp add: Let_def md rndOf_def getManhattanDistance_def)
    also have "\<dots> = sampleEnd ?rnd (0 + 2 + 2) ?st (0, 0) (0 + 1 + 1)"
      by (subst sampleEnd.simps)
         (simp add: Let_def md rndOf_def getManhattanDistance_def randomInt_def)
    also have "\<dots> = None"
      using tail by (intro sampleEnd_zero_tail) (simp_all add: manhattan_def getManhattanDistance_def md)
    finally show ?thesis .
  qed
  have fc: "farthestCorner ?st 0 0 = (2, 2)"
    by (simp add: farthestCorner_def corners_def md Let_def getManhattanDistance_def)
  have h1: "selectNewEndPoint ?rnd 0 ?st = Inr ((newGrid 3 3)\<lparr>start := Some (0, 0), end' := Some (2, 2)\<rparr>)"
    using se fc
    by (simp add: selectNewEndPoint_def Let_def getCellElement_def isValidCell_def newGrid_def)
  have c: "clearPoints ?st = Inr (newGrid 3 3)"
    by (simp add: clearPoints_def newGrid_def getCellElement_def isValidCell_def)
  have p0: "samplePair ?rnd 0 (newGrid 3 3) 0 = ((0, 0), (0, 1))"
    by (simp add: samplePair_def rndOf_def newGrid_def randomInt_def)
  have sp: "samplePairs ?rnd 0 (newGrid 3 3) 0 (0, None) = (1, Some ((0, 0), (0, 1)))"
  proof -
    have "samplePairs ?rnd 0 (newGrid 3 3) 0 (0, None)
        = samplePairs ?rnd (0 + 4) (newGrid 3 3) (0 + 1) (1, Some ((0, 0), (0, 1)))"
      by (subst samplePairs_step) (simp_all add: p0 manhattan_def getManhattanDistance_def)
    also have "\<dots> = (1, Some ((0, 0), (0, 1)))"
      using tail by (intro samplePairs_zero_tail) simp
    finally show ?thesis .
  qed
  have h2: "selectPoints ?rnd 0 ?st = Inr ((newGrid 3 3)\<lparr>start := Some (0, 0), end' := Some (0, 1)\<rparr>)"
    using c sp
    by (simp add: selectPoints_def Let_def getCellElement_def isValidCell_def newGrid_def)
  have h0: "start ?st = Some (0, 0)" by simp
  from selection_distance [of ?st "(0, 0)" ?rnd 0
      "(newGrid 3 3)\<lparr>start := Some (0, 0), end' := Some (2, 2)\<rparr>"
      "(newGrid 3 3)\<lparr>start := Some (0, 0), end' := Some (0, 1)\<rparr>"] h0 h1 h2
  have "(minDistance ?st \<le> manhattan (0, 0) (2, 2) \<or>
          (sampleEnd ?rnd 0 ?st (0, 0) 0 = None \<and> (2, 2) \<in> set (corners ?st) \<and>
           (\<forall>q \<in> set (corners ?st). manhattan (0, 0) q \<le> manhattan (0, 0) (2, 2))))"
    and "(\<forall>b < 1000. case samplePair ?rnd 0 ?st b of
                        (s', e') \<Rightarrow> s' \<noteq> e' \<longrightarrow> manhattan s' e' \<le> manhattan (0, 0) (0, 1))"
    by auto
  moreover have "\<not> minDistance ?st \<le> manhattan (0, 0) (2, 2)"
    by (simp add: md manhattan_def getManhattanDistance_def)
  moreover have "(0, 2) \<in> set (corners ?st)" "(2, 0) \<in> set (corners ?st)"
    by (simp_all add: corners_def md)
  ultimately show ?thesis using h0 h1 h2 se by blast
qed

text \<open>
  C4 as stated fails for full selection: on the 3 by 3 grid with \<open>minDistance = 12\<close> the first
  sample is Start (0, 0), End (0, 1) and all later samples have Start = End; \<open>selectPoints\<close>
  returns that pair, at distance 1, and the largest sampled distance is 1, not 0, so the
  corner fallback was not taken.
\<close>

theorem selectPoints_below_minDistance:
  "selectPoints (rndOf [0, 0, 0, 1/3]) 0 (newGrid 3 3)
     = Inr ((newGrid 3 3)\<lparr>start := Some (0, 0), end' := Some (0, 1)\<rparr>) \<and>
   fst (samplePairs (rndOf [0, 0, 0, 1/3]) 0 (newGrid 3 3) 0 (0, None)) = 1 \<and>
   getManhattanDistance 0 0 0 1 < minDistance (newGrid 3 3)"
proof -
  let ?rnd = "rndOf [0, 0, 0, 1/3]"
  have c: "clearPoints (newGrid 3 3) = Inr (newGrid 3 3)"
    by (simp add: clearPoints_def newGrid_def)
  have p0: "samplePair ?rnd 0 (newGrid 3 3) 0 = ((0, 0), (0, 1))"
    by (simp add: samplePair_def rndOf_def newGrid_def randomInt_def)
  have tail: "\<forall>j \<ge> 0 + 4. ?rnd j = 0" using rnd_ge[of "[0, 0, 0, 1/3]"] by simp
  have sp: "samplePairs ?rnd 0 (newGrid 3 3) 0 (0, None) = (1, Some ((0, 0), (0, 1)))"
  proof -
    have "samplePairs ?rnd 0 (newGrid 3 3) 0 (0, None)
        = samplePairs ?rnd (0 + 4) (newGrid 3 3) (0 + 1) (1, Some ((0, 0), (0, 1)))"
      by (subst samplePairs_step) (simp_all add: p0 manhattan_def getManhattanDistance_def)
    also have "\<dots> = (1, Some ((0, 0), (0, 1)))"
      by (rule samplePairs_zero_tail[OF tail])
    finally show ?thesis .
  qed
  show ?thesis
    using c sp
    by (simp add: selectPoints_def Let_def getCellElement_def isValidCell_def
        getManhattanDistance_def) (simp add: newGrid_def)
qed

text \<open>
  C9 (the code does not do this). Whenever all 1000 sampled pairs tie at distance 0, that is
  Start = End in every sample, no Start was recorded: \<open>bestStartRow\<close> and \<open>bestStartCol\<close> stay
  \<open>undefined\<close>, the corner distances are \<open>NaN\<close>, and \<open>getCellElement(undefined, undefined)\<close>
  raises TypeError instead of producing a Start and an End.
\<close>

theorem selectPoints_all_tie_raises:
  assumes "\<forall>a < 1000. fst (samplePair rnd k st a) = snd (samplePair rnd k st a)"
  shows "selectPoints rnd k st = Inl TypeError"
proof (cases "clearPoints st")
  case (Inl e)
  with clearPoints_Inl[OF Inl] show ?thesis by (simp add: selectPoints_def)
next
  case (Inr st0)
  from clearPoints_Inr[OF Inr] have rc: "rows st0 = rows st" "cols st0 = cols st" by simp_all
  have "samplePairs rnd k st 0 (0, None) = (0, None)"
    using assms by (intro samplePairs_ties) simp
  with samplePairs_grid[OF rc] have "samplePairs rnd k st0 0 (0, None) = (0, None)" by simp
  with Inr show ?thesis by (simp add: selectPoints_def)
qed

theorem selectPoints_all_tie_raises_witness:
  "selectPoints (\<lambda>k. 1/2) 0 (newGrid 1 1) = Inl TypeError"
proof -
  have u: "unit_rnd (\<lambda>k. 1/2)" by (simp add: unit_rnd_def)
  have h: "\<forall>a < 1000. fst (samplePair (\<lambda>k. 1/2) 0 (newGrid 1 1) a)
                       = snd (samplePair (\<lambda>k. 1/2) 0 (newGrid 1 1) a)"
    by (simp add: samplePair_1x1[OF u] newGrid_def)
  from selectPoints_all_tie_raises [OF h] show ?thesis .
qed

text \<open>
  C1 (the code does not do this). Full generation never marks the seed cell \<open>inMaze\<close>
  before carving (only the \<open>keepStart\<close> branch of line 246 does), so the seed is carved a
  second time from a neighbour. On the 3 by 3 grid with seed (1, 1) the run below removes
  9 walls, not \<open>rows * cols - 1 = 8\<close>, and the corridors contain the cycle
  (0,1), (0,2), (1,2), (1,1), (0,1).
\<close>

theorem full_generation_makes_cycle:
  "generateMaze cycleOracle False ((newGrid 3 3)\<lparr>isGenerating := True\<rparr>) = Resolved True cyclicMaze \<and>
   removedWalls cyclicMaze = 9 \<and>
   rows cyclicMaze * cols cyclicMaze - 1 = 8 \<and>
   corridorPath cyclicMaze [(0, 1), (0, 2), (1, 2), (1, 1), (0, 1)]"
proof -
  let ?g = "(newGrid 3 3)\<lparr>isGenerating := True\<rparr>"
  have seed: "seedCell cycleOracle False ?g = ((1, 1), 2)"
    by (simp add: seedCell_def cycleOracle_def rndOf_def newGrid_def)
  have gen: "isGenerating ?g" "\<not> isSolving ?g" by (simp_all add: newGrid_def)
  have "processChunk cycleOracle 2 False ?g [(1, 1, Top), (1, 1, Right), (1, 1, Bottom), (1, 1, Left)]
      = Inr (18 + 4000, cyclicMaze)"
    using gen by (simp add: processChunk_def cycle_carve cycle_select)
  then have 1: "generateMaze cycleOracle False ?g = Resolved True cyclicMaze"
    using gen by (simp add: generateMaze_def cycle_reset seed cycle_frontier)
  have 2: "removedWalls cyclicMaze = 9"
    by (simp add: removedWalls_def cells_def wallFlag_def cyclicMaze_def upto.simps eval_defs)
  have 3: "rows cyclicMaze * cols cyclicMaze - 1 = 8" by (simp add: cyclicMaze_def)
  have 4: "corridorPath cyclicMaze [(0, 1), (0, 2), (1, 2), (1, 1), (0, 1)]"
    by (simp add: corridorPath_def corridor_def getValidNeighbors_def cyclicMaze_def eval_defs)
  from 1 2 3 4 show ?thesis by blast
qed

text \<open>
  C3 (the code does not do this after a partial regeneration). The reset loop skips Start
  entirely, so Start keeps the wall flags of the previous maze while its neighbours get all
  four walls back. From the symmetric grid \<open>cyclicMaze\<close> with End (0, 1) promoted to Start,
  the run below ends with Start's bottom wall absent and the top wall of the cell below
  present.
\<close>

theorem partial_regeneration_breaks_symmetry:
  "wallsSymmetric cyclicMaze \<and>
   generateMaze regenOracle True (cyclicMaze\<lparr>start := Some (0, 1)\<rparr>) = Resolved True asymMaze \<and>
   \<not> wallsSymmetric asymMaze \<and>
   wallFlag asymMaze (0, 1) Bottom = Some False \<and>
   wallFlag asymMaze (1, 1) Top = Some True"
proof -
  let ?s = "cyclicMaze\<lparr>start := Some (0, 1)\<rparr>"
  let ?r = "cyclicMaze\<lparr>start := Some (0, 1),
              maze := [[blankCell, carved True False False False, blankCell],
                       [blankCell, blankCell, blankCell],
                       [blankCell, blankCell, blankCell]]\<rparr>"
  have 0: "wallsSymmetric cyclicMaze"
    by (simp add: wallsSymmetric_def cells_def wallFlag_def cyclicMaze_def upto.simps eval_defs)
  have seed: "seedCell regenOracle True ?r = ((0, 1), 0)" by (simp add: seedCell_def)
  have fl: "isGenerating ?r" "\<not> isSolving ?s" by (simp_all add: cyclicMaze_def)
  have "processChunk regenOracle 0 True ?r [(0, 1, Right), (0, 1, Bottom), (0, 1, Left)]
      = Inr (12, asymMaze\<lparr>end' := Some (0, 1)\<rparr>)"
    using fl by (simp add: processChunk_def regen_carve)
  moreover have "start (asymMaze\<lparr>end' := Some (0, 1)\<rparr>) \<noteq> None" by (simp add: asymMaze_def)
  ultimately have 1: "generateMaze regenOracle True ?s = Resolved True asymMaze"
    using fl by (simp add: generateMaze_def regen_reset seed regen_frontier regen_select)
  have 3: "wallFlag asymMaze (0, 1) Bottom = Some False"
    by (simp add: wallFlag_def asymMaze_def eval_defs)
  have 4: "wallFlag asymMaze (1, 1) Top = Some True"
    by (simp add: wallFlag_def asymMaze_def eval_defs)
  have 2: "\<not> wallsSymmetric asymMaze"
    by (simp add: wallsSymmetric_def cells_def wallFlag_def asymMaze_def upto.simps eval_defs)
  from 0 1 2 3 4 show ?thesis by blast
qed

theorem partial_regeneration_breaks_symmetry_witness:
  "isValidCell asymMaze 0 1 \<and> getCellInDirection 0 1 Bottom = (1, 1) \<and> isValidCell asymMaze 1 1 \<and>
   wallFlag asymMaze (0, 1) Bottom \<noteq> wallFlag asymMaze (1, 1) (opposite Bottom)"
  using partial_regeneration_breaks_symmetry
  by (simp add: isValidCell_def asymMaze_def)

text \<open>
  C10. After any sequence of \<open>enqueue\<close> and \<open>dequeue\<close> calls on a new PriorityQueue the
  array is a binary min-heap. \<open>dequeue\<close> on the empty queue returns \<open>undefined\<close> and leaves it
  empty; on a non-empty queue it returns the value of a stored entry whose priority is
  minimal among all stored entries and removes exactly that entry; \<open>enqueue\<close> adds exactly
  the new entry.
\<close>

theorem priority_queue_min:
  "is_heap (foldl applyOp [] ops) \<and>
   (foldl applyOp [] ops = [] \<longrightarrow> dequeue (foldl applyOp [] ops) = (None, [])) \<and>
   (foldl applyOp [] ops \<noteq> [] \<longrightarrow>
      (\<exists>e \<in> set (foldl applyOp [] ops).
          fst (dequeue (foldl applyOp [] ops)) = Some (val e) \<and>
          (\<forall>x \<in> set (foldl applyOp [] ops). priority e \<le> priority x) \<and>
          mset (snd (dequeue (foldl applyOp [] ops))) = mset (foldl applyOp [] ops) - {#e#})) \<and>
   mset (enqueue (foldl applyOp [] ops) v p)
     = add_mset \<lparr>val = v, priority = p\<rparr> (mset (foldl applyOp [] ops))"
proof -
  define vs where "vs = foldl applyOp ([] :: ('a, 'b) entry list) ops"
  have h: "is_heap vs" unfolding vs_def by (rule run_heap) (simp add: is_heap_def)
  have "vs \<noteq> [] \<longrightarrow>
      (\<exists>e \<in> set vs. fst (dequeue vs) = Some (val e) \<and>
          (\<forall>x \<in> set vs. priority e \<le> priority x) \<and>
          mset (snd (dequeue vs)) = mset vs - {#e#})"
  proof
    assume ne: "vs \<noteq> []"
    have "\<forall>x \<in> set vs. priority (vs ! 0) \<le> priority x"
      using heap_root_min[OF h] by (auto simp: in_set_conv_nth)
    moreover have "vs ! 0 \<in> set vs" using ne by simp
    ultimately show "\<exists>e \<in> set vs. fst (dequeue vs) = Some (val e) \<and>
          (\<forall>x \<in> set vs. priority e \<le> priority x) \<and>
          mset (snd (dequeue vs)) = mset vs - {#e#}"
      using dequeue_fst[OF ne] dequeue_mset[OF ne] by blast
  qed
  with h show ?thesis
    unfolding vs_def[symmetric] by (simp add: dequeue_Nil enqueue_mset)
qed

theorem priority_queue_min_witness:
  "foldl applyOp [] exampleOps
     = [\<lparr>val = ''b'', priority = 3\<rparr>, \<lparr>val = ''a'', priority = 5\<rparr>, \<lparr>val = ''c'', priority = 4\<rparr>] \<and>
   fst (dequeue (foldl applyOp [] exampleOps)) = Some ''b'' \<and>
   mset (snd (dequeue (foldl applyOp [] exampleOps)))
     = {#\<lparr>val = ''a'', priority = 5\<rparr>, \<lparr>val = ''c'', priority = 4\<rparr>#}"
proof -
  have ne: "foldl applyOp [] exampleOps \<noteq> []" by (simp add: exampleOps_run)
  from priority_queue_min [of exampleOps] ne obtain e where
    e: "e \<in> set (foldl applyOp [] exampleOps)"
    "fst (dequeue (foldl applyOp [] exampleOps)) = Some (val e)"
    "\<forall>x \<in> set (foldl applyOp [] exampleOps). priority e \<le> priority x"
    "mset (snd (dequeue (foldl applyOp [] exampleOps))) = mset (foldl applyOp [] exampleOps) - {#e#}"
    by blast
  from e(1,3) have "e = \<lparr>val = ''b'', priority = 3\<rparr>" by (auto simp: exampleOps_run)
  with e(2,4) show ?thesis by (simp add: exampleOps_run)
qed

text \<open>
  C2. On a well-formed grid whose corridor graph is a spanning tree (\<open>perfectMaze\<close>), for
  every Start and End among its cells, \<open>solveMaze\<close> returns \<open>true\<close> and the reconstructed path
  is the one simple path from Start to End, so its number of edges is the tree distance;
  no walk through removed walls from Start to End is shorter.
\<close>

theorem solveMaze_tree_distance:
  assumes wf: "wf_grid st" and pm: "perfectMaze st"
    and s: "start st = Some s" and e: "end' st = Some e"
    and vs: "validPos st s" and ve: "validPos st e" and ns: "\<not> solving st"
  shows "\<exists>p n. solveMaze st = Some (Inr (Found p, n, st\<lparr>solving := False\<rparr>)) \<and>
      simplePath st p s e \<and>
      (\<forall>q. simplePath st q s e \<longrightarrow> q = p) \<and>
      (\<forall>w. corridorPath st w \<and> hd w = s \<and> last w = e \<longrightarrow> length p \<le> length w)"
proof -
  from pm vs ve have ex1: "\<exists>!p. simplePath st p s e" unfolding perfectMaze_def by blast
  then obtain p0 where p0: "simplePath st p0 s e" by blast
  then have reach: "reachable st s e" by (auto simp: reachable_def simplePath_def)
  from solveMaze_run[OF wf s e vs ns] obtain res n where
    r: "solveMaze st = Some (Inr (res, n, st\<lparr>solving := False\<rparr>))"
    "case res of Found p \<Rightarrow> simplePath st p s e | NotFound \<Rightarrow> \<not> reachable st s e | Busy \<Rightarrow> False"
    by blast
  from r(2) reach obtain p where res: "res = Found p" and p: "simplePath st p s e"
    by (cases res) auto
  have uniq: "\<forall>q. simplePath st q s e \<longrightarrow> q = p" using ex1 p by blast
  have short: "\<forall>w. corridorPath st w \<and> hd w = s \<and> last w = e \<longrightarrow> length p \<le> length w"
  proof (intro allI impI)
    fix w assume w: "corridorPath st w \<and> hd w = s \<and> last w = e"
    with walk_valid[OF wf, of w] vs have "list_all (validPos st) w" by simp
    from walk_shorten[of st w, OF _ this] w obtain q where
      "simplePath st q s e" "length q \<le> length w" by auto
    with uniq show "length p \<le> length w" by auto
  qed
  from r(1) res p uniq short show ?thesis by blast
qed

theorem solveMaze_tree_distance_witness:
  "start corridorGrid = Some (0, 0) \<and> end' corridorGrid = Some (0, 2) \<and>
   validPos corridorGrid (0, 0) \<and> validPos corridorGrid (0, 2) \<and> \<not> solving corridorGrid \<and>
   (\<exists>n. solveMaze corridorGrid
          = Some (Inr (Found [(0, 0), (0, 1), (0, 2)], n, corridorGrid\<lparr>solving := False\<rparr>)))"
proof -
  have h: "start corridorGrid = Some (0, 0)" "end' corridorGrid = Some (0, 2)"
    "validPos corridorGrid (0, 0)" "validPos corridorGrid (0, 2)" "\<not> solving corridorGrid"
    by (simp_all add: corridorGrid_valid) (simp_all add: corridorGrid_def)
  from solveMaze_tree_distance [OF corridorGrid_wf corridorGrid_perfect h] obtain p n where
    r: "solveMaze corridorGrid = Some (Inr (Found p, n, corridorGrid\<lparr>solving := False\<rparr>))"
    and p: "simplePath corridorGrid p (0, 0) (0, 2)" by blast
  from p have "p = [(0, 0), (0, 1), (0, 2)]" unfolding corridorGrid_paths by simp
  with r h show ?thesis by blast
qed

text \<open>
  C6. On a well-formed grid with Start a cell, \<open>solveMaze\<close> returns a value (no exception,
  no divergence), \<open>true\<close> or \<open>false\<close>, after at most \<open>rows * cols\<close> dequeues, and \<open>false\<close>
  only if End cannot be reached from Start. The main loop ends the same way, with
  \<open>LoopEnded\<close>, whether the open set is empty or the iteration cap is reached, and
  \<open>solveMaze\<close> then returns \<open>false\<close>.
\<close>

theorem solveMaze_iteration_cap:
  assumes "wf_grid st" "start st = Some s" "end' st = Some e" "validPos st s" "\<not> solving st"
  shows "(\<exists>res n. solveMaze st = Some (Inr (res, n, st\<lparr>solving := False\<rparr>)) \<and>
            int n \<le> rows st * cols st \<and>
            (res = NotFound \<or> (\<exists>p. res = Found p)) \<and>
            (res = NotFound \<longrightarrow> \<not> reachable st s e)) \<and>
         (\<forall>k sv. isEmpty (openSet sv) \<or> rows st * cols st \<le> int k \<longrightarrow>
                 astar st e k sv = Inr (LoopEnded k)) \<and>
         (\<forall>n. astar st e 0 (initialSolver s e) = Inr (LoopEnded n) \<longrightarrow>
              solveMaze st = Some (Inr (NotFound, n, st\<lparr>solving := False\<rparr>)))"
proof (intro conjI)
  from solveMaze_run[OF assms] obtain res n where
    r: "solveMaze st = Some (Inr (res, n, st\<lparr>solving := False\<rparr>))"
    "int n \<le> rows st * cols st"
    "case res of Found p \<Rightarrow> simplePath st p s e | NotFound \<Rightarrow> \<not> reachable st s e | Busy \<Rightarrow> False"
    by blast
  from r(3) have "(res = NotFound \<or> (\<exists>p. res = Found p)) \<and> (res = NotFound \<longrightarrow> \<not> reachable st s e)"
    by (cases res) auto
  with r(1,2) show "\<exists>res n. solveMaze st = Some (Inr (res, n, st\<lparr>solving := False\<rparr>)) \<and>
            int n \<le> rows st * cols st \<and>
            (res = NotFound \<or> (\<exists>p. res = Found p)) \<and>
            (res = NotFound \<longrightarrow> \<not> reachable st s e)" by blast
  show "\<forall>k sv. isEmpty (openSet sv) \<or> rows st * cols st \<le> int k \<longrightarrow>
                 astar st e k sv = Inr (LoopEnded k)"
    by (intro allI impI, subst astar_unfold) auto
  show "\<forall>n. astar st e 0 (initialSolver s e) = Inr (LoopEnded n) \<longrightarrow>
              solveMaze st = Some (Inr (NotFound, n, st\<lparr>solving := False\<rparr>))"
    using assms(2,3,5) by (simp add: solveMaze_def)
qed

theorem solveMaze_iteration_cap_witness:
  "start walledGrid = Some (0, 0) \<and> end' walledGrid = Some (2, 2) \<and>
   validPos walledGrid (0, 0) \<and> \<not> solving walledGrid \<and>
   solveMaze walledGrid = Some (Inr (NotFound, 1, walledGrid\<lparr>solving := False\<rparr>)) \<and>
   \<not> reachable walledGrid (0, 0) (2, 2)"
proof -
  have h: "wf_grid walledGrid" "start walledGrid = Some (0, 0)" "end' walledGrid = Some (2, 2)"
    "validPos walledGrid (0, 0)" "\<not> solving walledGrid"
    by (simp_all add: walledGrid_def wf_grid_def newGrid_def validPos_def isValidCell_def)
  have q: "enqueue [] (0, 0) (0::int) = [\<lparr>val = (0, 0), priority = 0\<rparr>]"
    by (simp add: enqueue_def bubbleUp_def bubbleUpFrom.simps)
  have dq: "dequeue [\<lparr>val = (0::int, 0::int), priority = 0::int\<rparr>] = (Some (0, 0), [])"
    by (simp add: dequeue_def)
  have nb: "getValidNeighbors walledGrid 0 0 = Inr []"
    by (simp add: getValidNeighbors_def walledGrid_def newGrid33 cellAt_def blankCell_def allWalls_def)
  have rc: "rows walledGrid * cols walledGrid = 9" by (simp add: walledGrid_def newGrid_def)
  have "astar walledGrid (2, 2) 0 (initialSolver (0, 0) (2, 2))
      = astar walledGrid (2, 2) (Suc 0)
          ((initialSolver (0, 0) (2, 2))\<lparr>openSet := [], closedSet := {(0, 0)}\<rparr>)"
    by (subst astar_unfold) (simp add: initialSolver_def q dq isEmpty_def rc nb)
  also have "\<dots> = Inr (LoopEnded (Suc 0))"
    by (subst astar_unfold) (simp add: isEmpty_def)
  finally have a: "astar walledGrid (2, 2) 0 (initialSolver (0, 0) (2, 2)) = Inr (LoopEnded 1)"
    by simp
  from solveMaze_iteration_cap [OF h] a
  have "solveMaze walledGrid = Some (Inr (NotFound, 1, walledGrid\<lparr>solving := False\<rparr>))"
    and "\<exists>res n. solveMaze walledGrid = Some (Inr (res, n, walledGrid\<lparr>solving := False\<rparr>)) \<and>
            int n \<le> rows walledGrid * cols walledGrid \<and>
            (res = NotFound \<or> (\<exists>p. res = Found p)) \<and>
            (res = NotFound \<longrightarrow> \<not> reachable walledGrid (0, 0) (2, 2))"
    by blast+
  then have "solveMaze walledGrid = Some (Inr (NotFound, 1, walledGrid\<lparr>solving := False\<rparr>))"
    and "\<not> reachable walledGrid (0, 0) (2, 2)" by auto
  with h show ?thesis by blast
qed

text \<open>
  C7. If Start equals End (and the grid has at least one cell), \<open>solveMaze\<close> returns \<open>true\<close>
  after one dequeue with the path consisting of the Start cell alone.
\<close>

theorem solveMaze_start_is_end:
  assumes "start st = Some s" "end' st = Some s" "0 < rows st * cols st" "\<not> solving st"
  shows "solveMaze st = Some (Inr (Found [s], 1, st\<lparr>solving := False\<rparr>))"
proof -
  have q: "enqueue [] s (0::int) = [\<lparr>val = s, priority = 0\<rparr>]"
    by (simp add: enqueue_def bubbleUp_def bubbleUpFrom.simps)
  have dq: "dequeue [\<lparr>val = s, priority = 0::int\<rparr>] = (Some s, [])"
    by (simp add: dequeue_def)
  have "astar st s 0 (initialSolver s s) = Inr (ReachedEnd Map.empty s (Suc 0))"
    using assms(3) by (subst astar_unfold) (simp add: initialSolver_def q dq isEmpty_def)
  moreover have "reconstructPath Map.empty s [s] = Some [s]"
    by (subst reconstructPath.simps) simp
  moreover have "markPath st s s [s] = Inr ()" by (simp add: markPath_def)
  ultimately show ?thesis using assms by (simp add: solveMaze_def)
qed

theorem solveMaze_start_is_end_witness:
  "start ((newGrid 3 3)\<lparr>start := Some (1, 1), end' := Some (1, 1)\<rparr>) = Some (1, 1) \<and>
   end' ((newGrid 3 3)\<lparr>start := Some (1, 1), end' := Some (1, 1)\<rparr>) = Some (1, 1) \<and>
   0 < rows ((newGrid 3 3)\<lparr>start := Some (1, 1), end' := Some (1, 1)\<rparr>)
        * cols ((newGrid 3 3)\<lparr>start := Some (1, 1), end' := Some (1, 1)\<rparr>) \<and>
   \<not> solving ((newGrid 3 3)\<lparr>start := Some (1, 1), end' := Some (1, 1)\<rparr>) \<and>
   solveMaze ((newGrid 3 3)\<lparr>start := Some (1, 1), end' := Some (1, 1)\<rparr>)
     = Some (Inr (Found [(1, 1)], 1,
          (newGrid 3 3)\<lparr>start := Some (1, 1), end' := Some (1, 1), solving := False\<rparr>))"
  using solveMaze_start_is_end [of "(newGrid 3 3)\<lparr>start := Some (1, 1), end' := Some (1, 1)\<rparr>" "(1, 1)"]
  by (simp add: newGrid_def)

end
